theory Spec2Isabelle
  imports Main
begin

section \<open>The indexed tree store of \<^verbatim>\<open>src/lib/TreeStore.ts\<close>\<close>

subsection \<open>Data model\<close>

text \<open>
  An identifier is \<^verbatim>\<open>string | number\<close>. A JavaScript \<^verbatim>\<open>Map\<close> compares keys
  by value within one type and never equates a number with a string, which is the equality
  of this datatype. Numeric identifiers are taken to be integers.
\<close>

datatype key = KNum int | KStr string

text \<open>
  \<^verbatim>\<open>TreeItem\<close> of \<^verbatim>\<open>src/types/global.ts\<close>: the three declared fields and the index
  signature \<^verbatim>\<open>[key: string]: any\<close>, kept as a finite map from field names to values of an
  arbitrary type. The field \<^verbatim>\<open>id\<close> is named \<open>id'\<close> here.
\<close>

record 'v TreeItem =
  id' :: key
  parent :: "key option"
  label :: string
  extra :: "string \<rightharpoonup> 'v"

text \<open>
  Records are JavaScript objects: the store keeps references to them and shares them with
  its caller. A reference is an address; the heap gives the object at each address.
\<close>

type_synonym ref = nat

type_synonym 'v heap = "ref \<Rightarrow> 'v TreeItem"

text \<open>
  The three private fields of the class. The code only reads, sets, deletes and clears
  single keys of its two \<^verbatim>\<open>Map\<close>s and never enumerates them, so they are partial functions.
\<close>

record store =
  items :: "ref list"
  idMap :: "key \<rightharpoonup> ref"
  childrenMap :: "key \<rightharpoonup> ref list"

text \<open>The two errors the code throws (an \<^verbatim>\<open>Error\<close> with a message each).\<close>

datatype error = DuplicateIdError | NotFoundError

subsection \<open>Index maintenance\<close>

text \<open>
  The block that the constructor, \<^verbatim>\<open>addItem\<close>, \<^verbatim>\<open>removeItem\<close> and \<^verbatim>\<open>updateItem\<close> all
  contain: when the parent is not null, create the parent's list if the map has none, then
  push the item onto it.
\<close>

definition pushChild :: "'v heap \<Rightarrow> (key \<rightharpoonup> ref list) \<Rightarrow> ref \<Rightarrow> (key \<rightharpoonup> ref list)" where
  "pushChild h cm item =
     (case parent (h item) of
        None \<Rightarrow> cm
      | Some p \<Rightarrow>
          (let cm1 = (if cm p = None then cm(p \<mapsto> []) else cm)
           in case cm1 p of None \<Rightarrow> cm1 | Some cs \<Rightarrow> cm1(p \<mapsto> cs @ [item])))"

text \<open>\<^verbatim>\<open>childrenMap.clear()\<close> followed by the loop over \<^verbatim>\<open>this.items\<close>.\<close>

definition rebuildChildren :: "'v heap \<Rightarrow> ref list \<Rightarrow> (key \<rightharpoonup> ref list)" where
  "rebuildChildren h its = fold (\<lambda>item cm. pushChild h cm item) its Map.empty"

text \<open>The constructor: the list is copied, and one pass fills both maps.\<close>

definition constructor :: "'v heap \<Rightarrow> ref list \<Rightarrow> store" where
  "constructor h its =
     (let (im, cm) =
            fold (\<lambda>item (im, cm). (im(id' (h item) \<mapsto> item), pushChild h cm item))
                 its (Map.empty, Map.empty)
      in \<lparr>items = its, idMap = im, childrenMap = cm\<rparr>)"

subsection \<open>Queries\<close>

definition getAll :: "store \<Rightarrow> ref list" where
  "getAll s = items s"

definition getItem :: "store \<Rightarrow> key \<Rightarrow> ref option" where
  "getItem s k = idMap s k"

definition getChildren :: "store \<Rightarrow> key \<Rightarrow> ref list" where
  "getChildren s k = (case childrenMap s k of None \<Rightarrow> [] | Some cs \<Rightarrow> cs)"

text \<open>
  The \<^verbatim>\<open>while\<close> loop of \<^verbatim>\<open>getAllChildren\<close>. The stack is a list whose head is the
  top (the end of the JavaScript array), so \<^verbatim>\<open>pop\<close> takes the head and \<^verbatim>\<open>push\<close> conses.
  The loop need not end, so it is a partial function: \<open>None\<close> is "does not return".
\<close>

partial_function (option) getAllChildren_loop ::
  "'v heap \<Rightarrow> store \<Rightarrow> key list \<Rightarrow> ref list \<Rightarrow> ref list option" where
  "getAllChildren_loop h s stack result =
     (case stack of
        [] \<Rightarrow> Some result
      | currentId # rest \<Rightarrow>
          (let children = getChildren s currentId;
               (stack', result') =
                  fold (\<lambda>child (st, res). (id' (h child) # st, res @ [child]))
                       children (rest, result)
           in getAllChildren_loop h s stack' result'))"

definition getAllChildren :: "'v heap \<Rightarrow> store \<Rightarrow> key \<Rightarrow> ref list option" where
  "getAllChildren h s k = getAllChildren_loop h s [k] []"

text \<open>
  The loop of \<^verbatim>\<open>getAllParents\<close>: \<open>currentId\<close> is an identifier or null, and the loop
  runs while it is not null and \<^verbatim>\<open>idMap\<close> has it.
\<close>

partial_function (option) getAllParents_loop ::
  "'v heap \<Rightarrow> store \<Rightarrow> key option \<Rightarrow> ref list \<Rightarrow> ref list option" where
  "getAllParents_loop h s currentId result =
     (case currentId of
        None \<Rightarrow> Some result
      | Some c \<Rightarrow>
          (case idMap s c of
             None \<Rightarrow> Some result
           | Some item \<Rightarrow> getAllParents_loop h s (parent (h item)) (result @ [item])))"

definition getAllParents :: "'v heap \<Rightarrow> store \<Rightarrow> key \<Rightarrow> ref list option" where
  "getAllParents h s k = getAllParents_loop h s (Some k) []"

subsection \<open>Mutations\<close>

text \<open>
  A mutation returns the error it throws, if any, and the state it leaves behind.
  \<^verbatim>\<open>addItem\<close> and \<^verbatim>\<open>removeItem\<close> write no object, so they return the store only.
\<close>

definition addItem :: "'v heap \<Rightarrow> store \<Rightarrow> ref \<Rightarrow> error option \<times> store" where
  "addItem h s item =
     (if idMap s (id' (h item)) \<noteq> None then (Some DuplicateIdError, s)
      else (None, \<lparr>items = items s @ [item],
                   idMap = (idMap s)(id' (h item) \<mapsto> item),
                   childrenMap = pushChild h (childrenMap s) item\<rparr>))"

text \<open>
  \<^verbatim>\<open>removeItem\<close> runs \<^verbatim>\<open>getAllChildren\<close> first and returns only if that does.
\<close>

definition removeItem :: "'v heap \<Rightarrow> store \<Rightarrow> key \<Rightarrow> store option" where
  "removeItem h s k =
     (case getAllChildren h s k of
        None \<Rightarrow> None
      | Some ds \<Rightarrow>
          (let toRemove = k # map (\<lambda>i. id' (h i)) ds;
               items' = filter (\<lambda>item. id' (h item) \<notin> set toRemove) (items s);
               idMap' = fold (\<lambda>rid m. m(rid := None)) toRemove (idMap s)
           in Some \<lparr>items = items', idMap = idMap', childrenMap = rebuildChildren h items'\<rparr>))"

text \<open>
  \<^verbatim>\<open>Object.assign(target, source)\<close> on two \<^verbatim>\<open>TreeItem\<close>s: every own field of the source
  overwrites the target's field of that name; the target keeps its other fields.
\<close>

definition Object_assign :: "'v TreeItem \<Rightarrow> 'v TreeItem \<Rightarrow> 'v TreeItem" where
  "Object_assign target source =
     \<lparr>id' = id' source, parent = parent source, label = label source,
      extra = extra target ++ extra source\<rparr>"

text \<open>
  \<^verbatim>\<open>updateItem\<close> writes the object \<open>oldItem\<close>, so it returns the heap too.
\<close>

definition updateItem :: "'v heap \<Rightarrow> store \<Rightarrow> ref \<Rightarrow> error option \<times> 'v heap \<times> store" where
  "updateItem h s item =
     (case getItem s (id' (h item)) of
        None \<Rightarrow> (Some NotFoundError, h, s)
      | Some oldItem \<Rightarrow>
          (let parentChanged = (parent (h oldItem) \<noteq> parent (h item));
               h' = h(oldItem := Object_assign (h oldItem) (h item));
               idMap' = (idMap s)(id' (h' item) \<mapsto> oldItem)
           in (None, h',
               \<lparr>items = items s, idMap = idMap',
                childrenMap = (if parentChanged then rebuildChildren h' (items s)
                               else childrenMap s)\<rparr>)))"

subsection \<open>The store of the test suite\<close>

text \<open>
  \<^verbatim>\<open>makeItem\<close> of \<^verbatim>\<open>TreeStore.test.ts\<close> (the label is passed, not defaulted), and the
  objects that the test suite creates: at the addresses 0 to 6 the seven records of its
  \<^verbatim>\<open>beforeEach\<close>; at 7 the record added in the \<^verbatim>\<open>addItem\<close> test; at 8 and 9 the
  arguments of the two \<^verbatim>\<open>updateItem\<close> tests; at 10 the duplicate of record 1; at 11 the
  \<^verbatim>\<open>brokenItem\<close> whose parent is missing; elsewhere the record 999 that no store holds.
\<close>

definition makeItem :: "key \<Rightarrow> key option \<Rightarrow> string \<Rightarrow> 'v TreeItem" where
  "makeItem i p l = \<lparr>id' = i, parent = p, label = l, extra = Map.empty\<rparr>"

definition scenario_heap :: "'v heap" where
  "scenario_heap r =
     (if r = 0 then makeItem (KNum 1) None ''Item 1''
      else if r = 1 then makeItem (KNum 2) (Some (KNum 1)) ''Item 2''
      else if r = 2 then makeItem (KNum 3) (Some (KNum 1)) ''Item 3''
      else if r = 3 then makeItem (KNum 4) (Some (KNum 2)) ''Item 4''
      else if r = 4 then makeItem (KNum 5) (Some (KNum 2)) ''Item 5''
      else if r = 5 then makeItem (KNum 6) (Some (KNum 3)) ''Item 6''
      else if r = 6 then makeItem (KNum 7) None ''Item 7''
      else if r = 7 then makeItem (KNum 8) (Some (KNum 1)) ''Item 8''
      else if r = 8 then makeItem (KNum 2) (Some (KNum 1)) ''Updated Item''
      else if r = 9 then makeItem (KNum 2) (Some (KNum 3)) ''Item 2''
      else if r = 10 then makeItem (KNum 1) None ''Item 1''
      else if r = 11 then makeItem (KNum 99) (Some (KNum 98)) ''broken''
      else makeItem (KNum 999) None ''Item 999'')"

definition scenario_store :: store where
  "scenario_store = constructor (scenario_heap :: unit heap) [0, 1, 2, 3, 4, 5, 6]"

text \<open>\<^verbatim>\<open>brokenStore\<close> of the test "should stop at missing parent".\<close>

definition brokenStore :: store where
  "brokenStore = constructor (scenario_heap :: unit heap) [0, 1, 2, 3, 4, 5, 6, 11]"

section \<open>Specification predicates\<close>

subsection \<open>The store invariants\<close>

text \<open>
  The three invariants of the specification, over a heap and a store: identifiers are
  pairwise distinct along the sequence; the identifier map holds exactly the records of the
  sequence, each under its identifier; the children map holds, for each parent value that
  occurs, the records with that parent in sequence order, and nothing for other keys.
\<close>

definition ids_unique :: "'v heap \<Rightarrow> store \<Rightarrow> bool" where
  "ids_unique h s \<longleftrightarrow> distinct (map (\<lambda>r. id' (h r)) (items s))"

definition idMap_exact :: "'v heap \<Rightarrow> store \<Rightarrow> bool" where
  "idMap_exact h s \<longleftrightarrow>
     (\<forall>k r. idMap s k = Some r \<longleftrightarrow> r \<in> set (items s) \<and> id' (h r) = k)"

definition childrenOf :: "'v heap \<Rightarrow> ref list \<Rightarrow> key \<Rightarrow> ref list" where
  "childrenOf h its p = filter (\<lambda>r. parent (h r) = Some p) its"

definition childrenMap_exact :: "'v heap \<Rightarrow> store \<Rightarrow> bool" where
  "childrenMap_exact h s \<longleftrightarrow>
     (\<forall>p. childrenMap s p =
        (if childrenOf h (items s) p = [] then None else Some (childrenOf h (items s) p)))"

definition store_inv :: "'v heap \<Rightarrow> store \<Rightarrow> bool" where
  "store_inv h s \<longleftrightarrow> ids_unique h s \<and> idMap_exact h s \<and> childrenMap_exact h s"

text \<open>
  The part of the invariants that needs no uniqueness: every entry of the identifier map
  is a record of the sequence filed under its own identifier, every record's identifier has
  an entry, and the children map is exact. The constructor establishes it for every input.
\<close>

definition idMap_sound :: "'v heap \<Rightarrow> store \<Rightarrow> bool" where
  "idMap_sound h s \<longleftrightarrow>
     (\<forall>k r. idMap s k = Some r \<longrightarrow> r \<in> set (items s) \<and> id' (h r) = k) \<and>
     (\<forall>r\<in>set (items s). idMap s (id' (h r)) \<noteq> None)"

definition index_sound :: "'v heap \<Rightarrow> store \<Rightarrow> bool" where
  "index_sound h s \<longleftrightarrow> idMap_sound h s \<and> childrenMap_exact h s"

subsection \<open>The parent relation and descendants\<close>

text \<open>
  \<open>parentRel\<close> relates a record's identifier to its parent value. The strict descendants
  of \<open>k\<close> are the records from which parent links lead to \<open>k\<close> in one or more steps.
  A stack is an \<open>antichain\<close> when it repeats no identifier and holds no identifier
  together with one of its ancestors. \<open>traversal\<close> is the run of the loop of
  \<^verbatim>\<open>getAllChildren\<close> as a relation between a stack and what the loop appends to the
  result until the stack is empty.
\<close>

definition parentRel :: "'v heap \<Rightarrow> store \<Rightarrow> (key \<times> key) set" where
  "parentRel h s = {(id' (h r), p) | r p. r \<in> set (items s) \<and> parent (h r) = Some p}"

definition descendants :: "'v heap \<Rightarrow> store \<Rightarrow> key \<Rightarrow> ref set" where
  "descendants h s k = {r \<in> set (items s). (id' (h r), k) \<in> (parentRel h s)\<^sup>+}"

definition antichain :: "('a \<times> 'a) set \<Rightarrow> 'a list \<Rightarrow> bool" where
  "antichain R st \<longleftrightarrow> distinct st \<and> (\<forall>a\<in>set st. \<forall>b\<in>set st. (a, b) \<notin> R\<^sup>+)"

inductive traversal :: "'v heap \<Rightarrow> store \<Rightarrow> key list \<Rightarrow> ref list \<Rightarrow> bool" for h s where
  traversal_Nil: "traversal h s [] []"
| traversal_Cons:
    "traversal h s (rev (map (\<lambda>c. id' (h c)) (getChildren s k)) @ rest) zs \<Longrightarrow>
     traversal h s (k # rest) (getChildren s k @ zs)"

subsection \<open>The ancestor path\<close>

text \<open>
  \<open>ancestors\<close> is the run of the loop of \<^verbatim>\<open>getAllParents\<close> as a relation between the
  current identifier and what the loop appends to the result until it stops.
\<close>

inductive ancestors :: "'v heap \<Rightarrow> store \<Rightarrow> key option \<Rightarrow> ref list \<Rightarrow> bool" for h s where
  ancestors_null: "ancestors h s None []"
| ancestors_absent: "idMap s c = None \<Longrightarrow> ancestors h s (Some c) []"
| ancestors_step:
    "idMap s c = Some item \<Longrightarrow> ancestors h s (parent (h item)) zs \<Longrightarrow>
     ancestors h s (Some c) (item # zs)"

subsection \<open>Further concrete stores\<close>

text \<open>A store of one record that is its own parent.\<close>

definition loop_heap :: "'v heap" where
  "loop_heap r = makeItem (KNum 1) (Some (KNum 1)) ''Item 1''"

definition loop_store :: store where
  "loop_store = constructor (loop_heap :: unit heap) [0]"

section \<open>Unfolding the loops\<close>

lemma fold_push:
  "fold (\<lambda>child (st, res). (f child # st, res @ [child])) cs (st, res)
     = (rev (map f cs) @ st, res @ cs)"
  by (induction cs arbitrary: st res) auto

lemma getAllChildren_loop_Nil: "getAllChildren_loop h s [] res = Some res"
  by (subst getAllChildren_loop.simps) simp

lemma getAllChildren_loop_Cons:
  "getAllChildren_loop h s (k # rest) res =
     getAllChildren_loop h s (rev (map (\<lambda>c. id' (h c)) (getChildren s k)) @ rest)
       (res @ getChildren s k)"
  by (subst getAllChildren_loop.simps) (simp add: fold_push Let_def)

lemma getAllParents_loop_None: "getAllParents_loop h s None res = Some res"
  by (subst getAllParents_loop.simps) simp

lemma getAllParents_loop_Some:
  "getAllParents_loop h s (Some c) res =
     (case idMap s c of
        None \<Rightarrow> Some res
      | Some item \<Rightarrow> getAllParents_loop h s (parent (h item)) (res @ [item]))"
  by (subst getAllParents_loop.simps) simp

lemmas loop_eqs =
  getAllChildren_loop_Nil getAllChildren_loop_Cons
  getAllParents_loop_None getAllParents_loop_Some

lemmas store_defs =
  constructor_def pushChild_def rebuildChildren_def getAll_def getItem_def getChildren_def
  getAllChildren_def getAllParents_def addItem_def removeItem_def updateItem_def
  Object_assign_def Let_def

lemma scenario_heap_simps:
  "(scenario_heap :: 'v heap) 0 = makeItem (KNum 1) None ''Item 1''"
  "(scenario_heap :: 'v heap) (Suc 0) = makeItem (KNum 2) (Some (KNum 1)) ''Item 2''"
  "(scenario_heap :: 'v heap) 2 = makeItem (KNum 3) (Some (KNum 1)) ''Item 3''"
  "(scenario_heap :: 'v heap) 3 = makeItem (KNum 4) (Some (KNum 2)) ''Item 4''"
  "(scenario_heap :: 'v heap) 4 = makeItem (KNum 5) (Some (KNum 2)) ''Item 5''"
  "(scenario_heap :: 'v heap) 5 = makeItem (KNum 6) (Some (KNum 3)) ''Item 6''"
  "(scenario_heap :: 'v heap) 6 = makeItem (KNum 7) None ''Item 7''"
  "(scenario_heap :: 'v heap) 7 = makeItem (KNum 8) (Some (KNum 1)) ''Item 8''"
  "(scenario_heap :: 'v heap) 8 = makeItem (KNum 2) (Some (KNum 1)) ''Updated Item''"
  "(scenario_heap :: 'v heap) 9 = makeItem (KNum 2) (Some (KNum 3)) ''Item 2''"
  "(scenario_heap :: 'v heap) 10 = makeItem (KNum 1) None ''Item 1''"
  "(scenario_heap :: 'v heap) 11 = makeItem (KNum 99) (Some (KNum 98)) ''broken''"
  by (simp_all add: scenario_heap_def)

lemmas scenario_defs = scenario_store_def brokenStore_def scenario_heap_simps makeItem_def

section \<open>Index maintenance establishes and keeps the invariants\<close>

lemma pushChild_apply:
  "pushChild h cm item q =
     (if parent (h item) = Some q
      then Some ((case cm q of None \<Rightarrow> [] | Some cs \<Rightarrow> cs) @ [item])
      else cm q)"
  by (auto simp: pushChild_def Let_def split: option.splits)

lemma fold_pushChild_apply:
  "fold (\<lambda>item cm. pushChild h cm item) its cm q =
     (if childrenOf h its q = [] then cm q
      else Some ((case cm q of None \<Rightarrow> [] | Some cs \<Rightarrow> cs) @ childrenOf h its q))"
  by (induction its arbitrary: cm) (auto simp: pushChild_apply childrenOf_def)

lemma rebuildChildren_apply:
  "rebuildChildren h its q =
     (if childrenOf h its q = [] then None else Some (childrenOf h its q))"
  by (simp add: rebuildChildren_def fold_pushChild_apply)

lemma fold_delete_apply:
  "fold (\<lambda>rid m. m(rid := None)) ks m k = (if k \<in> set ks then None else m k)"
  by (induction ks arbitrary: m) auto

lemma constructor_Nil:
  "constructor h [] = \<lparr>items = [], idMap = Map.empty, childrenMap = Map.empty\<rparr>"
  by (simp add: constructor_def)

lemma constructor_snoc:
  "constructor h (its @ [item]) =
     \<lparr>items = its @ [item],
      idMap = (idMap (constructor h its))(id' (h item) \<mapsto> item),
      childrenMap = pushChild h (childrenMap (constructor h its)) item\<rparr>"
  by (simp add: constructor_def Let_def split: prod.splits)

lemma items_constructor: "items (constructor h its) = its"
  by (simp add: constructor_def Let_def split: prod.splits)

lemma inv_push:
  assumes inv: "store_inv h s" and fresh: "idMap s (id' (h item)) = None"
  shows "store_inv h \<lparr>items = items s @ [item],
                      idMap = (idMap s)(id' (h item) \<mapsto> item),
                      childrenMap = pushChild h (childrenMap s) item\<rparr>"
proof -
  from inv have u: "distinct (map (\<lambda>r. id' (h r)) (items s))"
    and m: "\<And>k r. idMap s k = Some r \<longleftrightarrow> r \<in> set (items s) \<and> id' (h r) = k"
    and c: "\<And>p. childrenMap s p =
        (if childrenOf h (items s) p = [] then None else Some (childrenOf h (items s) p))"
    by (auto simp: store_inv_def ids_unique_def idMap_exact_def childrenMap_exact_def)
  have notin: "\<And>r. r \<in> set (items s) \<Longrightarrow> id' (h r) \<noteq> id' (h item)"
  proof
    fix r assume "r \<in> set (items s)" "id' (h r) = id' (h item)"
    then have "idMap s (id' (h item)) = Some r" by (simp add: m)
    with fresh show False by simp
  qed
  have 1: "ids_unique h \<lparr>items = items s @ [item],
                      idMap = (idMap s)(id' (h item) \<mapsto> item),
                      childrenMap = pushChild h (childrenMap s) item\<rparr>"
  proof -
    have "id' (h item) \<notin> (\<lambda>r. id' (h r)) ` set (items s)"
      using notin by (metis imageE)
    with u show ?thesis by (simp add: ids_unique_def)
  qed
  have 2: "idMap_exact h \<lparr>items = items s @ [item],
                      idMap = (idMap s)(id' (h item) \<mapsto> item),
                      childrenMap = pushChild h (childrenMap s) item\<rparr>"
    unfolding idMap_exact_def
  proof (intro allI)
    fix k r
    show "(idMap \<lparr>items = items s @ [item], idMap = (idMap s)(id' (h item) \<mapsto> item),
                      childrenMap = pushChild h (childrenMap s) item\<rparr> k = Some r) =
          (r \<in> set (items \<lparr>items = items s @ [item], idMap = (idMap s)(id' (h item) \<mapsto> item),
                      childrenMap = pushChild h (childrenMap s) item\<rparr>) \<and> id' (h r) = k)"
    proof (cases "k = id' (h item)")
      case True
      with notin have "\<not> (r \<in> set (items s) \<and> id' (h r) = k)" by metis
      with True show ?thesis by auto
    next
      case False
      then show ?thesis by (auto simp: m)
    qed
  qed
  have 3: "childrenMap_exact h \<lparr>items = items s @ [item],
                      idMap = (idMap s)(id' (h item) \<mapsto> item),
                      childrenMap = pushChild h (childrenMap s) item\<rparr>"
    by (auto simp: childrenMap_exact_def pushChild_apply c childrenOf_def)
  from 1 2 3 show ?thesis by (simp add: store_inv_def)
qed

lemma constructor_inv:
  "distinct (map (\<lambda>r. id' (h r)) its) \<Longrightarrow> store_inv h (constructor h its)"
proof (induction its rule: rev_induct)
  case Nil
  show ?case
    by (simp add: constructor_Nil store_inv_def ids_unique_def idMap_exact_def
        childrenMap_exact_def childrenOf_def)
next
  case (snoc x xs)
  then have inv: "store_inv h (constructor h xs)" by simp
  from snoc.prems have "id' (h x) \<notin> (\<lambda>r. id' (h r)) ` set xs" by simp
  then have notin: "\<And>r. r \<in> set xs \<Longrightarrow> id' (h r) \<noteq> id' (h x)" by (metis imageI)
  have "idMap (constructor h xs) (id' (h x)) = None"
  proof (cases "idMap (constructor h xs) (id' (h x))")
    case (Some r)
    with inv have "r \<in> set xs \<and> id' (h r) = id' (h x)"
      by (simp add: store_inv_def idMap_exact_def items_constructor)
    with notin have False by metis
    then show ?thesis ..
  qed simp
  from inv_push[OF inv this] show ?case
    by (simp add: constructor_snoc items_constructor)
qed

lemma addItem_inv: "store_inv h s \<Longrightarrow> store_inv h (snd (addItem h s item))"
  by (auto simp: addItem_def intro: inv_push)

lemma removeItem_inv:
  assumes inv: "store_inv h s" and rm: "removeItem h s k = Some s'"
  shows "store_inv h s'"
proof -
  from rm obtain ds where s': "s' = \<lparr>items = filter (\<lambda>item. id' (h item) \<notin> set (k # map (\<lambda>i. id' (h i)) ds)) (items s),
     idMap = fold (\<lambda>rid m. m(rid := None)) (k # map (\<lambda>i. id' (h i)) ds) (idMap s),
     childrenMap = rebuildChildren h (filter (\<lambda>item. id' (h item) \<notin> set (k # map (\<lambda>i. id' (h i)) ds)) (items s))\<rparr>"
    by (auto simp: removeItem_def Let_def split: option.splits)
  from inv have u: "distinct (map (\<lambda>r. id' (h r)) (items s))"
    and m: "\<And>k r. idMap s k = Some r \<longleftrightarrow> r \<in> set (items s) \<and> id' (h r) = k"
    by (auto simp: store_inv_def ids_unique_def idMap_exact_def)
  have 1: "ids_unique h s'" using u by (simp add: s' ids_unique_def distinct_map_filter)
  have 2: "idMap_exact h s'" unfolding idMap_exact_def s'
    by (auto simp: fold_delete_apply m simp del: fold_simps)
  have 3: "childrenMap_exact h s'" unfolding childrenMap_exact_def s'
    by (simp add: rebuildChildren_apply)
  from 1 2 3 show ?thesis by (simp add: store_inv_def)
qed

lemma updateItem_unfold:
  assumes "idMap s (id' (h item)) = Some old"
  shows "updateItem h s item =
     (None, h(old := Object_assign (h old) (h item)),
      \<lparr>items = items s, idMap = idMap s,
       childrenMap = (if parent (h old) \<noteq> parent (h item)
                      then rebuildChildren (h(old := Object_assign (h old) (h item))) (items s)
                      else childrenMap s)\<rparr>)"
proof -
  have "id' ((h(old := Object_assign (h old) (h item))) item) = id' (h item)"
    by (simp add: Object_assign_def)
  moreover have "(idMap s)(id' (h item) \<mapsto> old) = idMap s"
    using assms by (auto simp: fun_eq_iff)
  ultimately show ?thesis
    using assms by (simp add: updateItem_def getItem_def Let_def)
qed

lemma updateItem_inv:
  assumes inv: "store_inv h s" and up: "updateItem h s item = (e, h', s')"
  shows "store_inv h' s'"
proof (cases "idMap s (id' (h item))")
  case None
  with up inv show ?thesis by (simp add: updateItem_def getItem_def)
next
  case (Some old)
  from inv have u: "distinct (map (\<lambda>r. id' (h r)) (items s))"
    and m: "\<And>k r. idMap s k = Some r \<longleftrightarrow> r \<in> set (items s) \<and> id' (h r) = k"
    and c: "\<And>p. childrenMap s p =
        (if childrenOf h (items s) p = [] then None else Some (childrenOf h (items s) p))"
    by (auto simp: store_inv_def ids_unique_def idMap_exact_def childrenMap_exact_def)
  from Some m have old: "old \<in> set (items s)" "id' (h old) = id' (h item)" by auto
  from up Some have h': "h' = h(old := Object_assign (h old) (h item))"
    and s': "s' = \<lparr>items = items s, idMap = (idMap s)(id' (h' item) \<mapsto> old),
        childrenMap = (if parent (h old) \<noteq> parent (h item) then rebuildChildren h' (items s)
                               else childrenMap s)\<rparr>"
    by (auto simp: updateItem_def getItem_def Let_def)
  have ids: "id' (h' r) = id' (h r)" for r
    using old by (simp add: h' Object_assign_def)
  have 1: "ids_unique h' s'" using u by (simp add: ids_unique_def s' ids)
  have same: "idMap s' = idMap s"
    using Some by (auto simp: s' ids)
  have its: "items s' = items s" by (simp add: s')
  have 2: "idMap_exact h' s'" by (simp add: idMap_exact_def same its ids m)
  have 3: "childrenMap_exact h' s'"
  proof (cases "parent (h old) \<noteq> parent (h item)")
    case True
    then show ?thesis by (simp add: childrenMap_exact_def s' rebuildChildren_apply)
  next
    case False
    then have "parent (h' r) = parent (h r)" for r
      by (simp add: h' Object_assign_def)
    then have "childrenOf h' = childrenOf h" by (simp add: childrenOf_def fun_eq_iff)
    with False c show ?thesis by (simp add: childrenMap_exact_def s')
  qed
  from 1 2 3 show ?thesis by (simp add: store_inv_def)
qed

subsection \<open>The invariants without uniqueness hold in every store\<close>

lemma store_inv_sound: "store_inv h s \<Longrightarrow> index_sound h s"
  by (auto simp: store_inv_def index_sound_def idMap_sound_def idMap_exact_def)

lemma idMap_sound_has:
  "idMap_sound h s \<Longrightarrow> idMap s k \<noteq> None \<longleftrightarrow> (\<exists>r\<in>set (items s). id' (h r) = k)"
  unfolding idMap_sound_def by (metis option.exhaust)

lemma pushChild_exact:
  assumes "childrenMap_exact h s"
  shows "childrenMap_exact h \<lparr>items = items s @ [item], idMap = m,
                              childrenMap = pushChild h (childrenMap s) item\<rparr>"
  using assms by (auto simp: childrenMap_exact_def pushChild_apply childrenOf_def)

lemma sound_push:
  assumes "index_sound h s"
  shows "index_sound h \<lparr>items = items s @ [item],
                        idMap = (idMap s)(id' (h item) \<mapsto> item),
                        childrenMap = pushChild h (childrenMap s) item\<rparr>"
proof -
  from assms have a: "\<And>k r. idMap s k = Some r \<Longrightarrow> r \<in> set (items s) \<and> id' (h r) = k"
    and b: "\<And>r. r \<in> set (items s) \<Longrightarrow> idMap s (id' (h r)) \<noteq> None"
    and c: "childrenMap_exact h s"
    by (auto simp: index_sound_def idMap_sound_def)
  have "idMap_sound h \<lparr>items = items s @ [item],
                        idMap = (idMap s)(id' (h item) \<mapsto> item),
                        childrenMap = pushChild h (childrenMap s) item\<rparr>"
    unfolding idMap_sound_def using a b by (auto split: if_splits)
  with pushChild_exact[OF c] show ?thesis by (simp add: index_sound_def)
qed

lemma constructor_sound: "index_sound h (constructor h its)"
proof (induction its rule: rev_induct)
  case Nil
  show ?case
    by (simp add: constructor_Nil index_sound_def idMap_sound_def childrenMap_exact_def
        childrenOf_def)
next
  case (snoc x xs)
  from sound_push[OF snoc.IH, of x] show ?case
    by (simp add: constructor_snoc items_constructor)
qed

lemma addItem_sound: "index_sound h s \<Longrightarrow> index_sound h (snd (addItem h s item))"
  by (auto simp: addItem_def intro: sound_push)

lemma removeItem_sound:
  assumes "index_sound h s" and rm: "removeItem h s k = Some s'"
  shows "index_sound h s'"
proof -
  from rm obtain ds where s': "s' = \<lparr>items = filter (\<lambda>item. id' (h item) \<notin> set (k # map (\<lambda>i. id' (h i)) ds)) (items s),
     idMap = fold (\<lambda>rid m. m(rid := None)) (k # map (\<lambda>i. id' (h i)) ds) (idMap s),
     childrenMap = rebuildChildren h (filter (\<lambda>item. id' (h item) \<notin> set (k # map (\<lambda>i. id' (h i)) ds)) (items s))\<rparr>"
    by (auto simp: removeItem_def Let_def split: option.splits)
  from assms(1) have a: "\<And>k r. idMap s k = Some r \<Longrightarrow> r \<in> set (items s) \<and> id' (h r) = k"
    and b: "\<And>r. r \<in> set (items s) \<Longrightarrow> idMap s (id' (h r)) \<noteq> None"
    by (auto simp: index_sound_def idMap_sound_def)
  have 2: "idMap_sound h s'" unfolding idMap_sound_def s'
    using a b by (auto simp: fold_delete_apply simp del: fold_simps split: if_splits)
  have 3: "childrenMap_exact h s'" unfolding childrenMap_exact_def s'
    by (simp add: rebuildChildren_apply)
  from 2 3 show ?thesis by (simp add: index_sound_def)
qed

lemma updateItem_sound:
  assumes snd: "index_sound h s" and up: "updateItem h s item = (e, h', s')"
  shows "index_sound h' s'"
proof (cases "idMap s (id' (h item))")
  case None
  with up snd show ?thesis by (simp add: updateItem_def getItem_def)
next
  case (Some old)
  from snd have a: "\<And>k r. idMap s k = Some r \<Longrightarrow> r \<in> set (items s) \<and> id' (h r) = k"
    and b: "\<And>r. r \<in> set (items s) \<Longrightarrow> idMap s (id' (h r)) \<noteq> None"
    and c: "childrenMap_exact h s"
    by (auto simp: index_sound_def idMap_sound_def)
  from a[OF Some] have old: "old \<in> set (items s)" "id' (h old) = id' (h item)" by auto
  from up updateItem_unfold[of s h item old, OF Some] have h': "h' = h(old := Object_assign (h old) (h item))"
    and s': "s' = \<lparr>items = items s, idMap = idMap s,
        childrenMap = (if parent (h old) \<noteq> parent (h item) then rebuildChildren h' (items s)
                               else childrenMap s)\<rparr>"
    by auto
  have ids: "id' (h' r) = id' (h r)" for r
    using old by (simp add: h' Object_assign_def)
  have 2: "idMap_sound h' s'" unfolding idMap_sound_def
    using a b by (simp add: s' ids)
  have 3: "childrenMap_exact h' s'"
  proof (cases "parent (h old) \<noteq> parent (h item)")
    case True
    then show ?thesis by (simp add: childrenMap_exact_def s' rebuildChildren_apply)
  next
    case False
    then have "parent (h' r) = parent (h r)" for r
      by (simp add: h' Object_assign_def)
    then have "childrenOf h' = childrenOf h" by (simp add: childrenOf_def fun_eq_iff)
    with False c show ?thesis by (simp add: childrenMap_exact_def s')
  qed
  from 2 3 show ?thesis by (simp add: index_sound_def)
qed

section \<open>The descendant traversal\<close>

lemma traversal_loop:
  "traversal h s st zs \<Longrightarrow> getAllChildren_loop h s st res = Some (res @ zs)"
  by (induction arbitrary: res rule: traversal.induct)
     (simp_all add: getAllChildren_loop_Nil getAllChildren_loop_Cons)

lemma finite_parentRel: "finite (parentRel h s)"
proof -
  have "parentRel h s \<subseteq> (\<lambda>r. (id' (h r), the (parent (h r)))) ` set (items s)"
    by (force simp: parentRel_def)
  then show ?thesis by (rule finite_surj[rotated]) simp
qed

lemma getChildren_inv:
  "childrenMap_exact h s \<Longrightarrow> getChildren s k = childrenOf h (items s) k"
  by (simp add: getChildren_def childrenMap_exact_def)

lemma child_in_parentRel:
  "childrenMap_exact h s \<Longrightarrow> c \<in> set (getChildren s k) \<Longrightarrow> (id' (h c), k) \<in> parentRel h s"
  by (auto simp: getChildren_inv childrenOf_def parentRel_def)

lemma traversal_total_list:
  assumes "\<And>c rest. c \<in> set cs \<Longrightarrow> \<exists>zs. traversal h s rest zs \<Longrightarrow> \<exists>zs. traversal h s (c # rest) zs"
    and "\<exists>zs. traversal h s rest zs"
  shows "\<exists>zs. traversal h s (cs @ rest) zs"
  using assms by (induction cs) auto

lemma traversal_total_Cons:
  assumes wf: "wf (parentRel h s)" and c: "childrenMap_exact h s"
  shows "\<exists>zs. traversal h s rest zs \<Longrightarrow> \<exists>zs. traversal h s (k # rest) zs"
  using wf
proof (induction k arbitrary: rest rule: wf_induct_rule)
  case (less k)
  have "\<exists>zs. traversal h s (rev (map (\<lambda>c. id' (h c)) (getChildren s k)) @ rest) zs"
  proof (rule traversal_total_list)
    fix c rest'
    assume "c \<in> set (rev (map (\<lambda>c. id' (h c)) (getChildren s k)))"
      and r: "\<exists>zs. traversal h s rest' zs"
    then have "(c, k) \<in> parentRel h s"
      using child_in_parentRel[OF c] by auto
    from less.IH[OF this r] show "\<exists>zs. traversal h s (c # rest') zs" .
  qed (rule less.prems)
  then show ?case by (auto intro: traversal_Cons)
qed

lemma getAllChildren_traversal:
  assumes "childrenMap_exact h s" and "acyclic (parentRel h s)"
  shows "\<exists>zs. traversal h s [k] zs \<and> getAllChildren h s k = Some zs"
proof -
  have "wf (parentRel h s)"
    using assms(2) finite_parentRel by (rule finite_acyclic_wf[rotated])
  moreover note assms(1)
  ultimately obtain zs where "traversal h s [k] zs"
    using traversal_total_Cons[of h s "[]" k] traversal_Nil by blast
  then show ?thesis
    using traversal_loop[of h s "[k]" zs "[]"] by (auto simp: getAllChildren_def)
qed

lemma single_valued_parentRel:
  assumes "ids_unique h s"
  shows "single_valued (parentRel h s)"
proof (rule single_valuedI)
  fix a p q
  assume "(a, p) \<in> parentRel h s" "(a, q) \<in> parentRel h s"
  then obtain r r' where r: "r \<in> set (items s)" "id' (h r) = a" "parent (h r) = Some p"
    and r': "r' \<in> set (items s)" "id' (h r') = a" "parent (h r') = Some q"
    by (auto simp: parentRel_def)
  from assms have "inj_on (\<lambda>r. id' (h r)) (set (items s))"
    by (simp add: ids_unique_def distinct_map)
  with r r' have "r = r'" by (auto dest: inj_onD)
  with r r' show "p = q" by simp
qed

lemma parentRel_item:
  assumes "ids_unique h s" and "r \<in> set (items s)"
  shows "(id' (h r), k) \<in> parentRel h s \<longleftrightarrow> parent (h r) = Some k"
proof
  assume "(id' (h r), k) \<in> parentRel h s"
  then obtain r' where r': "r' \<in> set (items s)" "id' (h r') = id' (h r)" "parent (h r') = Some k"
    by (auto simp: parentRel_def)
  from assms have "inj_on (\<lambda>r. id' (h r)) (set (items s))"
    by (simp add: ids_unique_def distinct_map)
  with r' assms(2) have "r' = r" by (auto dest: inj_onD)
  with r' show "parent (h r) = Some k" by simp
next
  assume "parent (h r) = Some k"
  with assms(2) show "(id' (h r), k) \<in> parentRel h s" by (auto simp: parentRel_def)
qed

lemma chain_step:
  "single_valued R \<Longrightarrow> (a, b) \<in> R \<Longrightarrow> (a, c) \<in> R\<^sup>+ \<Longrightarrow> (b, c) \<in> R\<^sup>*"
  by (metis single_valuedD tranclD)

lemma antichain_push:
  assumes sv: "single_valued R" and ac: "acyclic R"
    and anti: "antichain R (k # rest)"
    and dcs: "distinct cs" and cs: "\<And>c. c \<in> set cs \<Longrightarrow> (c, k) \<in> R"
  shows "antichain R (rev cs @ rest)"
proof -
  from anti have drest: "distinct rest" and knot: "k \<notin> set rest"
    and inc: "\<And>a b. a \<in> set (k # rest) \<Longrightarrow> b \<in> set (k # rest) \<Longrightarrow> (a, b) \<notin> R\<^sup>+"
    by (auto simp: antichain_def)
  have disj: "set cs \<inter> set rest = {}"
  proof (rule ccontr)
    assume "set cs \<inter> set rest \<noteq> {}"
    then obtain c where "c \<in> set cs" "c \<in> set rest" by auto
    then have "(c, k) \<in> R\<^sup>+" "c \<in> set (k # rest)" using cs by auto
    with inc[of c k] show False by simp
  qed
  have pair: "(a, b) \<notin> R\<^sup>+" if a: "a \<in> set cs \<union> set rest" and b: "b \<in> set cs \<union> set rest" for a b
  proof
    assume ab: "(a, b) \<in> R\<^sup>+"
    show False
    proof (cases "a \<in> set cs")
      case True
      then have "(a, k) \<in> R" by (rule cs)
      from chain_step[OF sv this ab] have kb: "(k, b) \<in> R\<^sup>*" .
      show False
      proof (cases "b \<in> set cs")
        case True
        then have "(b, k) \<in> R" by (rule cs)
        from this kb have "(b, b) \<in> R\<^sup>+" by (rule rtrancl_into_trancl2)
        with ac show False by (simp add: acyclic_def)
      next
        case False
        with b have br: "b \<in> set rest" by simp
        with knot have "k \<noteq> b" by auto
        with kb have "(k, b) \<in> R\<^sup>+" by (auto dest: rtranclD)
        with inc[of k b] br show False by simp
      qed
    next
      case False
      with a have ar: "a \<in> set rest" by simp
      show False
      proof (cases "b \<in> set cs")
        case True
        then have "(b, k) \<in> R" by (rule cs)
        with ab have "(a, k) \<in> R\<^sup>+" by (rule trancl_into_trancl)
        with inc[of a k] ar show False by simp
      next
        case False
        with b have "b \<in> set rest" by simp
        with inc[of a b] ar ab show False by simp
      qed
    qed
  qed
  from dcs drest disj pair show ?thesis by (auto simp: antichain_def)
qed

lemma descendants_unfold:
  assumes inv: "store_inv h s"
  shows "descendants h s k =
     set (getChildren s k) \<union> (\<Union>c\<in>set (getChildren s k). descendants h s (id' (h c)))"
proof -
  from inv have u: "ids_unique h s" and c: "childrenMap_exact h s" by (auto simp: store_inv_def)
  have gc: "set (getChildren s k) = {r \<in> set (items s). (id' (h r), k) \<in> parentRel h s}"
    using parentRel_item[OF u] by (auto simp: getChildren_inv[OF c] childrenOf_def)
  have mid: "(c, k) \<in> parentRel h s \<longleftrightarrow> (\<exists>r\<in>set (getChildren s k). id' (h r) = c)" for c
    by (auto simp: getChildren_inv[OF c] childrenOf_def parentRel_def)
  show ?thesis
  proof (intro set_eqI iffI)
    fix r assume "r \<in> descendants h s k"
    then have r: "r \<in> set (items s)" and t: "(id' (h r), k) \<in> (parentRel h s)\<^sup>+"
      by (auto simp: descendants_def)
    from t show "r \<in> set (getChildren s k) \<union>
        (\<Union>c\<in>set (getChildren s k). descendants h s (id' (h c)))"
    proof (cases rule: tranclE)
      case base
      with r show ?thesis by (simp add: gc)
    next
      case (step c)
      from step(2) obtain r' where "r' \<in> set (getChildren s k)" "id' (h r') = c"
        using mid by blast
      with step(1) r have "r \<in> descendants h s (id' (h r'))" by (simp add: descendants_def)
      with \<open>r' \<in> set (getChildren s k)\<close> show ?thesis by blast
    qed
  next
    fix r assume "r \<in> set (getChildren s k) \<union>
        (\<Union>c\<in>set (getChildren s k). descendants h s (id' (h c)))"
    then consider "r \<in> set (getChildren s k)"
      | c where "c \<in> set (getChildren s k)" "r \<in> descendants h s (id' (h c))"
      by blast
    then show "r \<in> descendants h s k"
    proof cases
      case 1
      then show ?thesis by (auto simp: gc descendants_def)
    next
      case 2
      from 2(1) have "(id' (h c), k) \<in> parentRel h s" by (rule child_in_parentRel[OF c])
      moreover from 2(2) have "r \<in> set (items s)" "(id' (h r), id' (h c)) \<in> (parentRel h s)\<^sup>+"
        by (auto simp: descendants_def)
      ultimately show ?thesis by (auto simp: descendants_def intro: trancl_into_trancl)
    qed
  qed
qed

lemma traversal_set:
  assumes inv: "store_inv h s"
  shows "traversal h s st zs \<Longrightarrow> set zs = (\<Union>k\<in>set st. descendants h s k)"
proof (induction rule: traversal.induct)
  case traversal_Nil
  show ?case by simp
next
  case (traversal_Cons k rest zs)
  have "set (getChildren s k @ zs) =
      (set (getChildren s k) \<union> (\<Union>c\<in>set (getChildren s k). descendants h s (id' (h c))))
      \<union> (\<Union>k\<in>set rest. descendants h s k)"
    unfolding set_append traversal_Cons.IH by auto
  also have "\<dots> = descendants h s k \<union> (\<Union>k\<in>set rest. descendants h s k)"
    by (simp only: descendants_unfold[OF inv, of k, symmetric])
  finally show ?case by simp
qed

lemma getAllChildren_result:
  assumes inv: "store_inv h s" and ac: "acyclic (parentRel h s)"
  shows "\<exists>ys. getAllChildren h s k = Some ys \<and> set ys = descendants h s k"
proof -
  from inv have "childrenMap_exact h s" by (simp add: store_inv_def)
  from getAllChildren_traversal[OF this ac, of k] obtain ys
    where tr: "traversal h s [k] ys" and g: "getAllChildren h s k = Some ys" by blast
  from traversal_set[OF inv tr] g show ?thesis by simp
qed

lemma sorted_wrt_all: "(\<And>x y. x \<in> set xs \<Longrightarrow> y \<in> set xs \<Longrightarrow> P x y) \<Longrightarrow> sorted_wrt P xs"
  by (induction xs) auto

lemma traversal_props:
  assumes inv: "store_inv h s" and ac: "acyclic (parentRel h s)"
  shows "traversal h s st zs \<Longrightarrow> antichain (parentRel h s) st \<Longrightarrow>
     distinct zs \<and> sorted_wrt (\<lambda>x r. (id' (h x), id' (h r)) \<notin> (parentRel h s)\<^sup>+) zs"
proof (induction rule: traversal.induct)
  case traversal_Nil
  show ?case by simp
next
  case (traversal_Cons k rest zs)
  let ?R = "parentRel h s"
  let ?cs = "getChildren s k"
  let ?ids = "map (\<lambda>c. id' (h c)) ?cs"
  from inv have u: "ids_unique h s" and c: "childrenMap_exact h s" by (auto simp: store_inv_def)
  have dids: "distinct ?ids"
    using u by (simp add: getChildren_inv[OF c] childrenOf_def ids_unique_def distinct_map_filter)
  then have dcs: "distinct ?cs" by (simp add: distinct_map)
  have edge: "c \<in> set ?ids \<Longrightarrow> (c, k) \<in> ?R" for c
    using child_in_parentRel[OF c] by auto
  have anti': "antichain ?R (rev ?ids @ rest)"
    using single_valued_parentRel[OF u] ac traversal_Cons.prems dids edge
    by (rule antichain_push)
  from traversal_Cons.IH[unfolded rev_map, folded rev_map, OF anti']
  have dzs: "distinct zs"
    and szs: "sorted_wrt (\<lambda>x r. (id' (h x), id' (h r)) \<notin> ?R\<^sup>+) zs" by auto
  have setzs: "set zs = (\<Union>b\<in>set (rev ?ids @ rest). descendants h s b)"
    using traversal_Cons.hyps by (rule traversal_set[OF inv])
  have key: "(id' (h x), b) \<notin> ?R\<^sup>+" if "x \<in> set ?cs" "b \<in> set (rev ?ids @ rest)" for x b
  proof -
    from that(1) have "id' (h x) \<in> set (rev ?ids @ rest)" by simp
    with anti' that(2) show ?thesis unfolding antichain_def by blast
  qed
  have below: "\<exists>b\<in>set (rev ?ids @ rest). (id' (h r), b) \<in> ?R\<^sup>+" if "r \<in> set zs" for r
    using that unfolding setzs descendants_def by blast
  have disj: "set ?cs \<inter> set zs = {}"
    using key below by blast
  have scs: "sorted_wrt (\<lambda>x r. (id' (h x), id' (h r)) \<notin> ?R\<^sup>+) ?cs"
  proof (rule sorted_wrt_all)
    fix x y assume "x \<in> set ?cs" "y \<in> set ?cs"
    then show "(id' (h x), id' (h y)) \<notin> ?R\<^sup>+" using key[of x "id' (h y)"] by simp
  qed
  have cross: "(id' (h x), id' (h r)) \<notin> ?R\<^sup>+" if "x \<in> set ?cs" "r \<in> set zs" for x r
  proof
    assume xr: "(id' (h x), id' (h r)) \<in> ?R\<^sup>+"
    from below[OF that(2)] obtain b where b: "b \<in> set (rev ?ids @ rest)" "(id' (h r), b) \<in> ?R\<^sup>+"
      by blast
    from xr b(2) have "(id' (h x), b) \<in> ?R\<^sup>+" by (rule trancl_trans)
    with key[OF that(1) b(1)] show False ..
  qed
  from dcs dzs disj scs szs cross show ?case
    by (simp add: sorted_wrt_append)
qed

lemma antichain_single: "acyclic R \<Longrightarrow> antichain R [k]"
  by (simp add: antichain_def acyclic_def)

lemma getAllChildren_no_children:
  assumes "childrenMap_exact h s" and "\<And>r. r \<in> set (items s) \<Longrightarrow> parent (h r) \<noteq> Some k"
  shows "getAllChildren h s k = Some []"
proof -
  have "childrenOf h (items s) k = []"
    using assms(2) by (auto simp: childrenOf_def filter_empty_conv)
  then have "getChildren s k = []" by (simp add: getChildren_inv[OF assms(1)])
  then show ?thesis
    by (simp add: getAllChildren_def getAllChildren_loop_Cons getAllChildren_loop_Nil)
qed

lemma removeItem_unfold:
  assumes inv: "store_inv h s" and g: "getAllChildren h s k = Some ys"
    and sub: "set ys \<subseteq> set (items s)"
  shows "removeItem h s k =
     Some \<lparr>items = filter (\<lambda>r. id' (h r) \<noteq> k \<and> r \<notin> set ys) (items s),
           idMap = (\<lambda>j. if j = k \<or> j \<in> (\<lambda>r. id' (h r)) ` set ys then None else idMap s j),
           childrenMap = rebuildChildren h (filter (\<lambda>r. id' (h r) \<noteq> k \<and> r \<notin> set ys) (items s))\<rparr>"
proof -
  from inv have "inj_on (\<lambda>r. id' (h r)) (set (items s))"
    by (simp add: store_inv_def ids_unique_def distinct_map)
  then have mem: "id' (h r) \<in> (\<lambda>r. id' (h r)) ` set ys \<longleftrightarrow> r \<in> set ys"
    if "r \<in> set (items s)" for r
    using that sub by (auto dest: inj_onD)
  have f: "filter (\<lambda>item. id' (h item) \<notin> set (k # map (\<lambda>i. id' (h i)) ys)) (items s)
      = filter (\<lambda>r. id' (h r) \<noteq> k \<and> r \<notin> set ys) (items s)"
    by (rule filter_cong) (auto simp: mem)
  have m: "fold (\<lambda>rid m. m(rid := None)) (k # map (\<lambda>i. id' (h i)) ys) (idMap s)
      = (\<lambda>j. if j = k \<or> j \<in> (\<lambda>r. id' (h r)) ` set ys then None else idMap s j)"
    unfolding fun_eq_iff fold_delete_apply by auto
  show ?thesis
    unfolding removeItem_def g option.case Let_def f m ..
qed

lemma store_eqI:
  "items s = items t \<Longrightarrow> idMap s = idMap t \<Longrightarrow> childrenMap s = childrenMap t \<Longrightarrow> s = (t :: store)"
  by simp

lemma count_list_distinct: "distinct xs \<Longrightarrow> r \<in> set xs \<Longrightarrow> count_list xs r = 1"
  by (induction xs) auto

section \<open>The ancestor traversal\<close>

lemma ancestors_loop:
  "ancestors h s cur zs \<Longrightarrow> getAllParents_loop h s cur res = Some (res @ zs)"
  by (induction arbitrary: res rule: ancestors.induct)
     (simp_all add: getAllParents_loop_None getAllParents_loop_Some)

lemma ancestors_total:
  assumes snd: "idMap_sound h s" and ac: "acyclic (parentRel h s)"
  shows "\<exists>zs. ancestors h s (Some c) zs"
proof -
  have "wf ((parentRel h s)\<inverse>)"
    using finite_parentRel ac by (rule finite_acyclic_wf_converse)
  then show ?thesis
  proof (induction c rule: wf_induct_rule)
    case (less c)
    show ?case
    proof (cases "idMap s c")
      case None
      then show ?thesis by (auto intro: ancestors_absent)
    next
      case (Some item)
      with snd have item: "item \<in> set (items s)" "id' (h item) = c"
        by (auto simp: idMap_sound_def)
      have "\<exists>zs. ancestors h s (parent (h item)) zs"
      proof (cases "parent (h item)")
        case None
        then show ?thesis by (auto intro: ancestors_null)
      next
        case (Some p)
        with item have "(c, p) \<in> parentRel h s" by (auto simp: parentRel_def)
        then have "(p, c) \<in> (parentRel h s)\<inverse>" by simp
        from less.IH[OF this] Some show ?thesis by simp
      qed
      with Some show ?thesis by (auto intro: ancestors_step)
    qed
  qed
qed

lemma getAllParents_ancestors:
  assumes snd: "idMap_sound h s" and ac: "acyclic (parentRel h s)"
  shows "\<exists>ys. ancestors h s (Some k) ys \<and> getAllParents h s k = Some ys"
proof -
  from ancestors_total[OF snd ac, of k] obtain ys where a: "ancestors h s (Some k) ys" ..
  from ancestors_loop[OF a, of "[]"] have "getAllParents h s k = Some ys"
    by (simp add: getAllParents_def)
  with a show ?thesis by blast
qed

lemma ancestors_head:
  "ancestors h s cur zs \<Longrightarrow>
     (case cur of None \<Rightarrow> zs = []
      | Some c \<Rightarrow> (case idMap s c of None \<Rightarrow> zs = [] | Some item \<Rightarrow> zs \<noteq> [] \<and> hd zs = item))"
  by (cases rule: ancestors.cases) auto

lemma ancestors_links:
  "ancestors h s cur zs \<Longrightarrow> Suc n < length zs \<Longrightarrow>
     \<exists>p. parent (h (zs ! n)) = Some p \<and> idMap s p = Some (zs ! Suc n)"
proof (induction arbitrary: n rule: ancestors.induct)
  case (ancestors_step c item zs)
  show ?case
  proof (cases n)
    case 0
    with ancestors_step.prems have ne: "zs \<noteq> []" by auto
    from ancestors_head[OF ancestors_step.hyps(2)] ne
    obtain p where "parent (h item) = Some p" "idMap s p = Some (hd zs)"
      by (auto split: option.splits)
    with 0 ne show ?thesis by (simp add: hd_conv_nth)
  next
    case (Suc m)
    with ancestors_step.prems have "Suc m < length zs" by simp
    from ancestors_step.IH[OF this] Suc show ?thesis by simp
  qed
qed simp_all

lemma ancestors_last:
  "ancestors h s cur zs \<Longrightarrow> zs \<noteq> [] \<Longrightarrow>
     (case parent (h (last zs)) of None \<Rightarrow> True | Some p \<Rightarrow> idMap s p = None)"
proof (induction rule: ancestors.induct)
  case (ancestors_step c item zs)
  show ?case
  proof (cases "zs = []")
    case True
    with ancestors_head[OF ancestors_step.hyps(2)] show ?thesis
      by (auto split: option.splits)
  next
    case False
    with ancestors_step.IH show ?thesis by simp
  qed
qed simp_all

lemma getAllParents_leads_to_cycle:
  assumes "getAllParents_loop h s cur res = Some y" and "store_inv h s" and "cur = Some c"
    and "(c, d) \<in> (parentRel h s)\<^sup>*"
  shows "(d, d) \<notin> (parentRel h s)\<^sup>+"
  using assms
proof (induction arbitrary: c rule: getAllParents_loop.raw_induct[rotated 1, consumes 1])
  case (1 loop h s cur res y)
  show ?case
  proof
    assume cyc: "(d, d) \<in> (parentRel h s)\<^sup>+"
    have "(c, d) \<in> (parentRel h s)\<^sup>+"
    proof (cases "c = d")
      case True
      with cyc show ?thesis by simp
    next
      case False
      with \<open>(c, d) \<in> (parentRel h s)\<^sup>*\<close> show ?thesis by (auto dest: rtranclD)
    qed
    then obtain p where cp: "(c, p) \<in> parentRel h s" and pd: "(p, d) \<in> (parentRel h s)\<^sup>*"
      by (auto dest: tranclD)
    from cp obtain r where r: "r \<in> set (items s)" "id' (h r) = c" "parent (h r) = Some p"
      by (auto simp: parentRel_def)
    with \<open>store_inv h s\<close> have "idMap s c = Some r"
      by (auto simp: store_inv_def idMap_exact_def)
    with 1(2) r \<open>cur = Some c\<close> have "loop h s (Some p) (res @ [r]) = Some y" by simp
    from 1(1)[OF this \<open>store_inv h s\<close> refl pd] cyc show False ..
  qed
qed

lemma getAllParents_diverges:
  assumes "store_inv h s" and "(k, d) \<in> (parentRel h s)\<^sup>*" and "(d, d) \<in> (parentRel h s)\<^sup>+"
  shows "getAllParents h s k = None"
proof (cases "getAllParents h s k")
  case (Some y)
  then have "getAllParents_loop h s (Some k) [] = Some y" by (simp add: getAllParents_def)
  from getAllParents_leads_to_cycle[OF this assms(1) refl assms(2)] assms(3) show ?thesis by simp
qed simp

section \<open>Facts about the concrete stores\<close>

lemma scenario_inv: "store_inv (scenario_heap :: unit heap) scenario_store"
  unfolding scenario_store_def
  by (rule constructor_inv) (simp add: scenario_heap_simps makeItem_def)

lemma scenario_items: "items scenario_store = [0, 1, 2, 3, 4, 5, 6]"
  by (simp add: scenario_store_def items_constructor)

lemma scenario_acyclic: "acyclic (parentRel (scenario_heap :: unit heap) scenario_store)"
proof (rule acyclicI_order[where f = "\<lambda>k. case k of KNum n \<Rightarrow> n | KStr _ \<Rightarrow> 0"])
  fix a b
  assume "(a, b) \<in> parentRel (scenario_heap :: unit heap) scenario_store"
  then show "(case b of KNum n \<Rightarrow> n | KStr _ \<Rightarrow> 0) < (case a of KNum n \<Rightarrow> n | KStr _ \<Rightarrow> 0)"
    by (auto simp: parentRel_def scenario_items scenario_heap_simps makeItem_def)
qed

lemma scenario_sound: "idMap_sound (scenario_heap :: unit heap) scenario_store"
  using store_inv_sound[OF scenario_inv] by (simp add: index_sound_def)

lemma scenario_index_sound: "index_sound (scenario_heap :: unit heap) scenario_store"
  by (rule store_inv_sound[OF scenario_inv])

lemma scenario_getItem_2: "getItem scenario_store (KNum 2) = Some 1"
  by (simp add: store_defs scenario_defs)

lemma brokenStore_inv: "store_inv (scenario_heap :: unit heap) brokenStore"
  unfolding brokenStore_def
  by (rule constructor_inv) (simp add: scenario_heap_simps makeItem_def)

lemma brokenStore_acyclic: "acyclic (parentRel (scenario_heap :: unit heap) brokenStore)"
proof (rule acyclicI_order[where f = "\<lambda>k. case k of KNum n \<Rightarrow> n | KStr _ \<Rightarrow> 0"])
  fix a b
  assume "(a, b) \<in> parentRel (scenario_heap :: unit heap) brokenStore"
  then show "(case b of KNum n \<Rightarrow> n | KStr _ \<Rightarrow> 0) < (case a of KNum n \<Rightarrow> n | KStr _ \<Rightarrow> 0)"
    by (auto simp: parentRel_def brokenStore_def items_constructor scenario_heap_simps makeItem_def)
qed

lemma loop_inv: "store_inv (loop_heap :: unit heap) loop_store"
  unfolding loop_store_def
  by (rule constructor_inv) simp

lemma loop_cycle: "(KNum 1, KNum 1) \<in> (parentRel (loop_heap :: unit heap) loop_store)\<^sup>+"
  by (rule r_into_trancl)
     (simp add: parentRel_def loop_store_def items_constructor loop_heap_def makeItem_def)

section \<open>The claims of the specification\<close>

subsection \<open>Store invariants\<close>

text \<open>
  Claim C1, amended. \<open>store_inv\<close> is the conjunction of the three invariants. Construction
  from a sequence of records with pairwise distinct identifiers establishes it, and
  \<^verbatim>\<open>addItem\<close>, \<^verbatim>\<open>removeItem\<close> (when it returns) and \<^verbatim>\<open>updateItem\<close> keep it, whether they
  succeed or throw.
\<close>

theorem store_invariants_kept:
  "(distinct (map (\<lambda>r. id' (h r)) its) \<longrightarrow> store_inv h (constructor h its))
   \<and> (store_inv h s \<longrightarrow> store_inv h (snd (addItem h s item)))
   \<and> (store_inv h s \<longrightarrow> (\<forall>s'. removeItem h s k = Some s' \<longrightarrow> store_inv h s'))
   \<and> (store_inv h s \<longrightarrow>
         store_inv (fst (snd (updateItem h s item))) (snd (snd (updateItem h s item))))"
proof (intro conjI impI allI)
  assume "distinct (map (\<lambda>r. id' (h r)) its)"
  then show "store_inv h (constructor h its)" by (rule constructor_inv)
next
  assume "store_inv h s"
  then show "store_inv h (snd (addItem h s item))" by (rule addItem_inv)
next
  fix s' assume "store_inv h s" "removeItem h s k = Some s'"
  then show "store_inv h s'" by (rule removeItem_inv)
next
  assume inv: "store_inv h s"
  have "updateItem h s item =
      (fst (updateItem h s item), fst (snd (updateItem h s item)), snd (snd (updateItem h s item)))"
    by simp
  with inv show "store_inv (fst (snd (updateItem h s item))) (snd (snd (updateItem h s item)))"
    by (rule updateItem_inv)
qed

text \<open>
  The theorem at the store of the test suite: its construction, the \<^verbatim>\<open>addItem\<close> of
  record 8, the \<^verbatim>\<open>removeItem\<close> of 2 and the \<^verbatim>\<open>updateItem\<close> that moves 2 under 3.
\<close>

theorem store_invariants_kept_witness:
  "distinct (map (\<lambda>r. id' ((scenario_heap :: unit heap) r)) [0, 1, 2, 3, 4, 5, 6])
   \<and> store_inv (scenario_heap :: unit heap) (constructor (scenario_heap :: unit heap) [0, 1, 2, 3, 4, 5, 6])
   \<and> fst (addItem (scenario_heap :: unit heap) scenario_store 7) = None
   \<and> store_inv (scenario_heap :: unit heap) (snd (addItem (scenario_heap :: unit heap) scenario_store 7))
   \<and> (\<exists>s'. removeItem (scenario_heap :: unit heap) scenario_store (KNum 2) = Some s'
          \<and> store_inv (scenario_heap :: unit heap) s')
   \<and> fst (updateItem (scenario_heap :: unit heap) scenario_store 9) = None
   \<and> store_inv (fst (snd (updateItem (scenario_heap :: unit heap) scenario_store 9)))
        (snd (snd (updateItem (scenario_heap :: unit heap) scenario_store 9)))"
proof -
  let ?h = "scenario_heap :: unit heap"
  note t = store_invariants_kept[of ?h "[0, 1, 2, 3, 4, 5, 6]" scenario_store]
  have d: "distinct (map (\<lambda>r. id' (?h r)) [0, 1, 2, 3, 4, 5, 6])"
    by (simp add: scenario_heap_simps makeItem_def)
  with t[of 7 "KNum 2"] have c: "store_inv ?h (constructor ?h [0, 1, 2, 3, 4, 5, 6])" by blast
  then have inv: "store_inv ?h scenario_store" by (simp add: scenario_store_def)
  with t[of 7 "KNum 2"] have a: "store_inv ?h (snd (addItem ?h scenario_store 7))" by blast
  have fa: "fst (addItem ?h scenario_store 7) = None"
    by (simp add: addItem_def store_defs scenario_defs)
  have "getAllChildren ?h scenario_store (KNum 2) = Some [3, 4]"
    by (simp add: loop_eqs store_defs scenario_defs)
  then obtain s' where rm: "removeItem ?h scenario_store (KNum 2) = Some s'"
    by (simp add: removeItem_def Let_def)
  with inv t[of 7 "KNum 2"] have "store_inv ?h s'" by blast
  with rm have r: "\<exists>s'. removeItem ?h scenario_store (KNum 2) = Some s' \<and> store_inv ?h s'"
    by blast
  have fu: "fst (updateItem ?h scenario_store 9) = None"
    using updateItem_unfold[of scenario_store ?h 9 1] scenario_getItem_2
    by (simp add: getItem_def scenario_heap_simps makeItem_def)
  from inv t[of 9 "KNum 2"]
  have u: "store_inv (fst (snd (updateItem ?h scenario_store 9)))
        (snd (snd (updateItem ?h scenario_store 9)))" by blast
  from d c fa a r fu u show ?thesis by (intro conjI)
qed

text \<open>
  Claim C1 as stated fails for construction: the constructor checks nothing, so from the
  records 1 and its duplicate it builds a store whose sequence holds the identifier 1 twice
  and whose identifier map holds only the second of the two records.
\<close>

theorem constructor_duplicate_counterexample:
  "map (\<lambda>r. id' ((scenario_heap :: unit heap) r)) (getAll (constructor (scenario_heap :: unit heap) [0, 10]))
     = [KNum 1, KNum 1]
   \<and> getItem (constructor (scenario_heap :: unit heap) [0, 10]) (KNum 1) = Some 10
   \<and> \<not> store_inv (scenario_heap :: unit heap) (constructor (scenario_heap :: unit heap) [0, 10])"
  by (simp add: store_inv_def ids_unique_def scenario_heap_simps makeItem_def store_defs)

subsection \<open>Removal\<close>

text \<open>
  Claim C2, amended. In a store that satisfies the invariants and whose parent relation is
  acyclic, \<open>removeItem k\<close> returns; it removes from the sequence and from the identifier map
  exactly the record \<open>k\<close> and the records that \<open>getAllChildren k\<close> returned before, and the
  result satisfies the invariants; a second \<open>removeItem k\<close> changes nothing; and when \<open>k\<close>
  is not in the store and no record names \<open>k\<close> as its parent, the first changes nothing.
\<close>

theorem removeItem_cascade:
  assumes inv: "store_inv h s" and ac: "acyclic (parentRel h s)"
  shows "\<exists>ys s'. getAllChildren h s k = Some ys \<and> removeItem h s k = Some s'
     \<and> getAll s' = filter (\<lambda>r. id' (h r) \<noteq> k \<and> r \<notin> set ys) (getAll s)
     \<and> (\<forall>j. getItem s' j =
            (if j = k \<or> j \<in> (\<lambda>r. id' (h r)) ` set ys then None else getItem s j))
     \<and> store_inv h s'
     \<and> removeItem h s' k = Some s'
     \<and> (getItem s k = None \<and> (\<forall>r\<in>set (getAll s). parent (h r) \<noteq> Some k) \<longrightarrow> s' = s)"
proof -
  from getAllChildren_result[OF inv ac, of k] obtain ys
    where g: "getAllChildren h s k = Some ys" and sy: "set ys = descendants h s k" by blast
  from sy have sub: "set ys \<subseteq> set (items s)" by (auto simp: descendants_def)
  define s' where "s' = \<lparr>items = filter (\<lambda>r. id' (h r) \<noteq> k \<and> r \<notin> set ys) (items s),
           idMap = (\<lambda>j. if j = k \<or> j \<in> (\<lambda>r. id' (h r)) ` set ys then None else idMap s j),
           childrenMap = rebuildChildren h (filter (\<lambda>r. id' (h r) \<noteq> k \<and> r \<notin> set ys) (items s))\<rparr>"
  have rm: "removeItem h s k = Some s'"
    unfolding s'_def by (rule removeItem_unfold[OF inv g sub])
  have its: "getAll s' = filter (\<lambda>r. id' (h r) \<noteq> k \<and> r \<notin> set ys) (getAll s)"
    by (simp add: s'_def getAll_def)
  have ids: "\<forall>j. getItem s' j =
            (if j = k \<or> j \<in> (\<lambda>r. id' (h r)) ` set ys then None else getItem s j)"
    by (simp add: s'_def getItem_def)
  have inv': "store_inv h s'" using inv rm by (rule removeItem_inv)
  from inv have u: "ids_unique h s" and m: "idMap_exact h s" and c: "childrenMap_exact h s"
    by (auto simp: store_inv_def)
  \<comment> \<open>no remaining record has the parent \<open>k\<close>: the children of \<open>k\<close> are among \<open>ys\<close>\<close>
  have nochild: "parent (h r) \<noteq> Some k" if "r \<in> set (items s')" for r
  proof
    assume p: "parent (h r) = Some k"
    from that have r: "r \<in> set (items s)" "r \<notin> set ys" by (auto simp: s'_def)
    from r(1) p have "(id' (h r), k) \<in> parentRel h s" by (auto simp: parentRel_def)
    with r(1) have "r \<in> descendants h s k" by (auto simp: descendants_def)
    with r(2) sy show False by simp
  qed
  have g': "getAllChildren h s' k = Some []"
    using inv' nochild by (intro getAllChildren_no_children) (auto simp: store_inv_def)
  have again: "removeItem h s' k = Some s'"
  proof -
    have "removeItem h s' k =
       Some \<lparr>items = filter (\<lambda>r. id' (h r) \<noteq> k \<and> r \<notin> set []) (items s'),
           idMap = (\<lambda>j. if j = k \<or> j \<in> (\<lambda>r. id' (h r)) ` set [] then None else idMap s' j),
           childrenMap = rebuildChildren h (filter (\<lambda>r. id' (h r) \<noteq> k \<and> r \<notin> set []) (items s'))\<rparr>"
      by (rule removeItem_unfold[OF inv' g']) simp
    moreover have "filter (\<lambda>r. id' (h r) \<noteq> k \<and> r \<notin> set []) (items s') = items s'"
    proof -
      have "\<And>r. r \<in> set (items s') \<Longrightarrow> id' (h r) \<noteq> k" by (simp add: s'_def)
      then show ?thesis by (simp add: filter_id_conv)
    qed
    moreover have "(\<lambda>j. if j = k \<or> j \<in> (\<lambda>r. id' (h r)) ` set [] then None else idMap s' j) = idMap s'"
    proof -
      have "idMap s' k = None" by (simp add: s'_def)
      then show ?thesis by (auto simp: fun_eq_iff)
    qed
    moreover have "rebuildChildren h (items s') = childrenMap s'"
      by (simp add: s'_def)
    ultimately show ?thesis by simp
  qed
  have noop: "getItem s k = None \<and> (\<forall>r\<in>set (getAll s). parent (h r) \<noteq> Some k) \<longrightarrow> s' = s"
  proof
    assume a: "getItem s k = None \<and> (\<forall>r\<in>set (getAll s). parent (h r) \<noteq> Some k)"
    then have "getAllChildren h s k = Some []"
      using c by (intro getAllChildren_no_children) (auto simp: getAll_def)
    with g have ys: "ys = []" by simp
    have nok: "id' (h r) \<noteq> k" if "r \<in> set (items s)" for r
    proof
      assume "id' (h r) = k"
      with that m have "idMap s k = Some r" by (simp add: idMap_exact_def)
      with a show False by (simp add: getItem_def)
    qed
    have 1: "items s' = items s" by (auto simp: s'_def ys filter_id_conv nok)
    have 2: "idMap s' = idMap s" using a by (auto simp: s'_def ys fun_eq_iff getItem_def)
    have 3: "childrenMap s' = childrenMap s"
      using c 1 by (auto simp: s'_def fun_eq_iff rebuildChildren_apply childrenMap_exact_def)
    from 1 2 3 show "s' = s" by (rule store_eqI)
  qed
  from g rm its ids inv' again noop show ?thesis by (intro exI[of _ ys] exI[of _ s'] conjI)
qed

text \<open>
  The theorem at the store of the test suite, for the identifier 2 and the unknown 999.
\<close>

theorem removeItem_cascade_witness:
  "store_inv (scenario_heap :: unit heap) scenario_store
   \<and> acyclic (parentRel (scenario_heap :: unit heap) scenario_store)
   \<and> getAllChildren (scenario_heap :: unit heap) scenario_store (KNum 2) = Some [3, 4]
   \<and> map_option getAll (removeItem (scenario_heap :: unit heap) scenario_store (KNum 2))
        = Some [0, 2, 5, 6]
   \<and> getItem scenario_store (KNum 999) = None
   \<and> removeItem (scenario_heap :: unit heap) scenario_store (KNum 999) = Some scenario_store"
proof -
  let ?h = "scenario_heap :: unit heap"
  obtain ys s' where g: "getAllChildren ?h scenario_store (KNum 2) = Some ys"
    and rm: "removeItem ?h scenario_store (KNum 2) = Some s'"
    and its: "getAll s' = filter (\<lambda>r. id' (?h r) \<noteq> KNum 2 \<and> r \<notin> set ys) (getAll scenario_store)"
    using removeItem_cascade[OF scenario_inv scenario_acyclic, of "KNum 2"]
    by (elim exE conjE) (rule that)
  obtain zs t where rm9: "removeItem ?h scenario_store (KNum 999) = Some t"
    and noop: "getItem scenario_store (KNum 999) = None
       \<and> (\<forall>r\<in>set (getAll scenario_store). parent (?h r) \<noteq> Some (KNum 999)) \<longrightarrow> t = scenario_store"
    using removeItem_cascade[OF scenario_inv scenario_acyclic, of "KNum 999"]
    by (elim exE conjE) (rule that)
  have "getAllChildren ?h scenario_store (KNum 2) = Some [3, 4]"
    by (simp add: loop_eqs store_defs scenario_defs)
  with g have ys: "ys = [3, 4]" by simp
  have "getAll s' = [0, 2, 5, 6]"
    unfolding its ys by (simp add: getAll_def scenario_items scenario_heap_simps makeItem_def)
  with rm have r2: "map_option getAll (removeItem ?h scenario_store (KNum 2)) = Some [0, 2, 5, 6]"
    by simp
  have i9: "getItem scenario_store (KNum 999) = None"
    by (simp add: store_defs scenario_defs)
  have "\<forall>r\<in>set (getAll scenario_store). parent (?h r) \<noteq> Some (KNum 999)"
    by (simp add: getAll_def scenario_items scenario_heap_simps makeItem_def)
  with noop i9 rm9 have r9: "removeItem ?h scenario_store (KNum 999) = Some scenario_store"
    by simp
  from scenario_inv scenario_acyclic g ys r2 i9 r9 show ?thesis by simp
qed

text \<open>
  Claim C2 as stated fails for an unknown identifier that a record names as its parent:
  in \<^verbatim>\<open>brokenStore\<close> no record has the identifier 98, and \<open>removeItem 98\<close> removes the
  record 99.
\<close>

theorem removeItem_unknown_counterexample:
  "getItem brokenStore (KNum 98) = None
   \<and> getAll brokenStore = [0, 1, 2, 3, 4, 5, 6, 11]
   \<and> map_option getAll (removeItem (scenario_heap :: unit heap) brokenStore (KNum 98))
        = Some [0, 1, 2, 3, 4, 5, 6]"
proof -
  have g: "getAllChildren (scenario_heap :: unit heap) brokenStore (KNum 98) = Some [11]"
    by (simp add: store_defs scenario_defs loop_eqs)
  have "map_option getAll (removeItem (scenario_heap :: unit heap) brokenStore (KNum 98))
        = Some [0, 1, 2, 3, 4, 5, 6]"
    unfolding removeItem_def g
    by (simp add: store_defs scenario_defs)
  moreover have "getItem brokenStore (KNum 98) = None \<and> getAll brokenStore = [0, 1, 2, 3, 4, 5, 6, 11]"
    by (simp add: store_defs scenario_defs)
  ultimately show ?thesis by simp
qed

subsection \<open>Descendants\<close>

text \<open>
  Claim C3, amended. In a store that satisfies the invariants and whose parent relation is
  acyclic, \<open>getAllChildren k\<close> returns, and what it returns is exactly the strict
  descendants of \<open>k\<close>, each once, none of them the record \<open>k\<close> itself, and no record
  comes after one of its own descendants. When no record names \<open>k\<close> as its parent, which
  includes every unknown identifier that no record refers to, the result is empty.
\<close>

theorem getAllChildren_descendants:
  assumes inv: "store_inv h s" and ac: "acyclic (parentRel h s)"
  shows "\<exists>ys. getAllChildren h s k = Some ys
      \<and> set ys = {r \<in> set (items s). (id' (h r), k) \<in> (parentRel h s)\<^sup>+}
      \<and> distinct ys
      \<and> (\<forall>r\<in>set ys. id' (h r) \<noteq> k)
      \<and> (\<forall>i j. i < length ys \<and> j < length ys
             \<and> (id' (h (ys ! j)), id' (h (ys ! i))) \<in> (parentRel h s)\<^sup>+ \<longrightarrow> i < j)
      \<and> ((\<forall>r\<in>set (items s). parent (h r) \<noteq> Some k) \<longrightarrow> ys = [])"
proof -
  let ?R = "parentRel h s"
  from inv have "childrenMap_exact h s" by (simp add: store_inv_def)
  from getAllChildren_traversal[OF this ac, of k] obtain ys
    where tr: "traversal h s [k] ys" and g: "getAllChildren h s k = Some ys" by blast
  have set_ys: "set ys = {r \<in> set (items s). (id' (h r), k) \<in> ?R\<^sup>+}"
    using traversal_set[OF inv tr] by (simp add: descendants_def)
  from traversal_props[OF inv ac tr antichain_single[OF ac]]
  have d: "distinct ys" and so: "sorted_wrt (\<lambda>x r. (id' (h x), id' (h r)) \<notin> ?R\<^sup>+) ys"
    by auto
  have nk: "\<forall>r\<in>set ys. id' (h r) \<noteq> k"
  proof
    fix r assume "r \<in> set ys"
    then have "(id' (h r), k) \<in> ?R\<^sup>+" by (simp add: set_ys)
    with ac show "id' (h r) \<noteq> k" by (auto simp: acyclic_def)
  qed
  have ord: "\<forall>i j. i < length ys \<and> j < length ys
             \<and> (id' (h (ys ! j)), id' (h (ys ! i))) \<in> ?R\<^sup>+ \<longrightarrow> i < j"
  proof (intro allI impI)
    fix i j
    assume a: "i < length ys \<and> j < length ys \<and> (id' (h (ys ! j)), id' (h (ys ! i))) \<in> ?R\<^sup>+"
    show "i < j"
    proof (rule ccontr)
      assume "\<not> i < j"
      then consider "j < i" | "j = i" by linarith
      then show False
      proof cases
        case 1
        from a have "i < length ys" by simp
        from sorted_wrt_nth_less[OF so 1 this]
        have "(id' (h (ys ! j)), id' (h (ys ! i))) \<notin> ?R\<^sup>+" .
        with a show False by simp
      next
        case 2
        with a ac show False by (auto simp: acyclic_def)
      qed
    qed
  qed
  have emp: "(\<forall>r\<in>set (items s). parent (h r) \<noteq> Some k) \<longrightarrow> ys = []"
  proof
    assume "\<forall>r\<in>set (items s). parent (h r) \<noteq> Some k"
    then have "getAllChildren h s k = Some []"
      using inv by (intro getAllChildren_no_children) (auto simp: store_inv_def)
    with g show "ys = []" by simp
  qed
  from g set_ys d nk ord emp show ?thesis by blast
qed

text \<open>
  The theorem at the store of the test suite, for the identifier 1 and the unknown 999.
\<close>

theorem getAllChildren_descendants_witness:
  "store_inv (scenario_heap :: unit heap) scenario_store
   \<and> acyclic (parentRel (scenario_heap :: unit heap) scenario_store)
   \<and> getAllChildren (scenario_heap :: unit heap) scenario_store (KNum 1) = Some [1, 2, 5, 3, 4]
   \<and> set [1, 2, 5, 3, 4] = {r \<in> set (items scenario_store).
         (id' ((scenario_heap :: unit heap) r), KNum 1)
           \<in> (parentRel (scenario_heap :: unit heap) scenario_store)\<^sup>+}
   \<and> getAllChildren (scenario_heap :: unit heap) scenario_store (KNum 999) = Some []"
proof -
  let ?h = "scenario_heap :: unit heap"
  obtain ys where g: "getAllChildren ?h scenario_store (KNum 1) = Some ys"
    and s: "set ys = {r \<in> set (items scenario_store).
         (id' (?h r), KNum 1) \<in> (parentRel ?h scenario_store)\<^sup>+}"
    using getAllChildren_descendants[OF scenario_inv scenario_acyclic, of "KNum 1"]
    by (elim exE conjE) (rule that)
  obtain zs where g': "getAllChildren ?h scenario_store (KNum 999) = Some zs"
    and e: "(\<forall>r\<in>set (items scenario_store). parent (?h r) \<noteq> Some (KNum 999)) \<longrightarrow> zs = []"
    using getAllChildren_descendants[OF scenario_inv scenario_acyclic, of "KNum 999"]
    by (elim exE conjE) (rule that)
  have "getAllChildren ?h scenario_store (KNum 1) = Some [1, 2, 5, 3, 4]"
    by (simp add: loop_eqs store_defs scenario_defs)
  with g have ys: "ys = [1, 2, 5, 3, 4]" by simp
  have "\<forall>r\<in>set (items scenario_store). parent (?h r) \<noteq> Some (KNum 999)"
    by (simp add: scenario_items scenario_heap_simps makeItem_def)
  with e g' have z: "getAllChildren ?h scenario_store (KNum 999) = Some []" by simp
  from scenario_inv scenario_acyclic g s z show ?thesis unfolding ys by simp
qed

text \<open>
  Claim C3 as stated fails for an unknown identifier that a record names as its parent:
  in \<^verbatim>\<open>brokenStore\<close>, which satisfies the invariants and is acyclic, no record has the
  identifier 98 and \<open>getAllChildren 98\<close> is the record 99.
\<close>

theorem getAllChildren_unknown_counterexample:
  "store_inv (scenario_heap :: unit heap) brokenStore
   \<and> acyclic (parentRel (scenario_heap :: unit heap) brokenStore)
   \<and> getItem brokenStore (KNum 98) = None
   \<and> getAllChildren (scenario_heap :: unit heap) brokenStore (KNum 98) = Some [11]"
proof -
  have "getItem brokenStore (KNum 98) = None"
    by (simp add: store_defs scenario_defs)
  moreover have "getAllChildren (scenario_heap :: unit heap) brokenStore (KNum 98) = Some [11]"
    by (simp add: store_defs scenario_defs loop_eqs)
  ultimately show ?thesis using brokenStore_inv brokenStore_acyclic by simp
qed

subsection \<open>Ancestors\<close>

text \<open>
  Claim C4, amended. In a store whose identifier map is sound and whose parent relation is
  acyclic, \<open>getAllParents k\<close> returns a path: empty when \<open>k\<close> is not in the store; otherwise
  non-empty and starting with the record \<open>getItem k\<close>, each further element being the record
  stored under the parent value of the one before it, and the last element having a null
  parent or a parent value that is not in the store.
\<close>

theorem getAllParents_path:
  assumes snd: "idMap_sound h s" and ac: "acyclic (parentRel h s)"
  shows "\<exists>ys. getAllParents h s k = Some ys
      \<and> (getItem s k = None \<longrightarrow> ys = [])
      \<and> (\<forall>item. getItem s k = Some item \<longrightarrow> ys \<noteq> [] \<and> hd ys = item)
      \<and> (\<forall>n. Suc n < length ys \<longrightarrow>
            (\<exists>p. parent (h (ys ! n)) = Some p \<and> getItem s p = Some (ys ! Suc n)
                 \<and> id' (h (ys ! Suc n)) = p))
      \<and> (ys \<noteq> [] \<longrightarrow>
            (case parent (h (last ys)) of None \<Rightarrow> True | Some p \<Rightarrow> getItem s p = None))"
proof -
  from getAllParents_ancestors[OF snd ac, of k] obtain ys
    where a: "ancestors h s (Some k) ys" and g: "getAllParents h s k = Some ys" by blast
  from ancestors_head[OF a]
  have hd: "case idMap s k of None \<Rightarrow> ys = [] | Some item \<Rightarrow> ys \<noteq> [] \<and> hd ys = item"
    by simp
  have h1: "getItem s k = None \<longrightarrow> ys = []"
    using hd by (simp add: getItem_def split: option.splits)
  have h2: "\<forall>item. getItem s k = Some item \<longrightarrow> ys \<noteq> [] \<and> hd ys = item"
    using hd by (simp add: getItem_def split: option.splits)
  have l: "\<forall>n. Suc n < length ys \<longrightarrow>
            (\<exists>p. parent (h (ys ! n)) = Some p \<and> getItem s p = Some (ys ! Suc n)
                 \<and> id' (h (ys ! Suc n)) = p)"
  proof (intro allI impI)
    fix n assume "Suc n < length ys"
    from ancestors_links[OF a this] obtain p
      where p: "parent (h (ys ! n)) = Some p" "idMap s p = Some (ys ! Suc n)" by blast
    with snd have "id' (h (ys ! Suc n)) = p" by (auto simp: idMap_sound_def)
    with p show "\<exists>p. parent (h (ys ! n)) = Some p \<and> getItem s p = Some (ys ! Suc n)
                 \<and> id' (h (ys ! Suc n)) = p" by (simp add: getItem_def)
  qed
  have e: "ys \<noteq> [] \<longrightarrow>
            (case parent (h (last ys)) of None \<Rightarrow> True | Some p \<Rightarrow> getItem s p = None)"
    using ancestors_last[OF a] unfolding getItem_def by blast
  from g h1 h2 l e show ?thesis by (intro exI[of _ ys] conjI)
qed

text \<open>
  The theorem at the store of the test suite, for the identifier 4 and the unknown 999.
\<close>

theorem getAllParents_path_witness:
  "idMap_sound (scenario_heap :: unit heap) scenario_store
   \<and> acyclic (parentRel (scenario_heap :: unit heap) scenario_store)
   \<and> getItem scenario_store (KNum 4) = Some 3
   \<and> getAllParents (scenario_heap :: unit heap) scenario_store (KNum 4) = Some [3, 1, 0]
   \<and> getItem scenario_store (KNum 999) = None
   \<and> getAllParents (scenario_heap :: unit heap) scenario_store (KNum 999) = Some []"
proof -
  let ?h = "scenario_heap :: unit heap"
  obtain ys where g: "getAllParents ?h scenario_store (KNum 4) = Some ys"
    and hd: "\<forall>item. getItem scenario_store (KNum 4) = Some item \<longrightarrow> ys \<noteq> [] \<and> hd ys = item"
    using getAllParents_path[OF scenario_sound scenario_acyclic, of "KNum 4"]
    by (elim exE conjE) (rule that)
  obtain zs where g': "getAllParents ?h scenario_store (KNum 999) = Some zs"
    and n': "getItem scenario_store (KNum 999) = None \<longrightarrow> zs = []"
    using getAllParents_path[OF scenario_sound scenario_acyclic, of "KNum 999"]
    by (elim exE conjE) (rule that)
  have i4: "getItem scenario_store (KNum 4) = Some 3"
    by (simp add: store_defs scenario_defs)
  have i9: "getItem scenario_store (KNum 999) = None"
    by (simp add: store_defs scenario_defs)
  have "getAllParents ?h scenario_store (KNum 4) = Some [3, 1, 0]"
    by (simp add: loop_eqs store_defs scenario_defs)
  with g have ys: "ys = [3, 1, 0]" by simp
  from n' i9 g' have z: "getAllParents ?h scenario_store (KNum 999) = Some []" by simp
  from scenario_sound scenario_acyclic i4 g ys i9 z show ?thesis by simp
qed

text \<open>
  Claim C4 as stated fails on a cyclic store: in the store of one record that is its own
  parent, the identifier is present and \<open>getAllParents\<close> does not return.
\<close>

theorem getAllParents_cyclic_counterexample:
  "store_inv (loop_heap :: unit heap) loop_store
   \<and> getItem loop_store (KNum 1) = Some 0
   \<and> getAllParents (loop_heap :: unit heap) loop_store (KNum 1) = None"
proof -
  have "getItem loop_store (KNum 1) = Some 0"
    by (simp add: loop_store_def loop_heap_def makeItem_def store_defs)
  moreover have "getAllParents (loop_heap :: unit heap) loop_store (KNum 1) = None"
    using loop_inv rtrancl.rtrancl_refl loop_cycle by (rule getAllParents_diverges)
  ultimately show ?thesis using loop_inv by simp
qed

subsection \<open>Insertion\<close>

text \<open>
  Claim C5. In a store whose identifier map is sound, \<open>addItem\<close> throws the duplicate
  error exactly when a record of the sequence has the identifier of the new one, and then
  leaves the store as it was; it throws nothing else. On success the record is the
  last of the sequence, the identifier map holds it under its identifier and is otherwise
  unchanged, and, when its parent is not null, that parent's children list is the old list,
  or the empty one if there was none, followed by the record; other lists are unchanged.
\<close>

theorem addItem_spec:
  assumes snd: "idMap_sound h s" and add: "addItem h s item = (e, s')"
  shows "(e = Some DuplicateIdError \<longleftrightarrow> (\<exists>r\<in>set (getAll s). id' (h r) = id' (h item)))
     \<and> (e = Some DuplicateIdError \<or> e = None)
     \<and> (e = Some DuplicateIdError \<longrightarrow> s' = s)
     \<and> (e = None \<longrightarrow>
            getAll s' = getAll s @ [item]
          \<and> getItem s' (id' (h item)) = Some item
          \<and> (\<forall>j. j \<noteq> id' (h item) \<longrightarrow> getItem s' j = getItem s j)
          \<and> (\<forall>p. parent (h item) = Some p \<longrightarrow>
                 childrenMap s' p = Some (getChildren s p @ [item]))
          \<and> (\<forall>q. parent (h item) \<noteq> Some q \<longrightarrow> childrenMap s' q = childrenMap s q))"
proof (cases "idMap s (id' (h item)) = None")
  case True
  with idMap_sound_has[OF snd, of "id' (h item)"]
  have no: "\<not> (\<exists>r\<in>set (getAll s). id' (h r) = id' (h item))" by (simp add: getAll_def)
  from True add have e: "e = None"
    and s': "s' = \<lparr>items = items s @ [item], idMap = (idMap s)(id' (h item) \<mapsto> item),
                   childrenMap = pushChild h (childrenMap s) item\<rparr>"
    by (auto simp: addItem_def)
  have c: "\<forall>p. parent (h item) = Some p \<longrightarrow> childrenMap s' p = Some (getChildren s p @ [item])"
    by (simp add: s' pushChild_apply getChildren_def)
  have d: "\<forall>q. parent (h item) \<noteq> Some q \<longrightarrow> childrenMap s' q = childrenMap s q"
    by (simp add: s' pushChild_apply)
  have "getAll s' = getAll s @ [item]" "getItem s' (id' (h item)) = Some item"
    "\<forall>j. j \<noteq> id' (h item) \<longrightarrow> getItem s' j = getItem s j"
    by (simp_all add: s' getAll_def getItem_def)
  with no e c d show ?thesis by simp
next
  case False
  with idMap_sound_has[OF snd, of "id' (h item)"]
  have yes: "\<exists>r\<in>set (getAll s). id' (h r) = id' (h item)" by (simp add: getAll_def)
  from False add have "e = Some DuplicateIdError" "s' = s" by (auto simp: addItem_def)
  with yes show ?thesis by simp
qed

text \<open>
  The theorem at the store of the test suite: adding the duplicate of record 1 fails, adding
  record 8 under 1 succeeds.
\<close>

theorem addItem_spec_witness:
  "idMap_sound (scenario_heap :: unit heap) scenario_store
   \<and> addItem (scenario_heap :: unit heap) scenario_store 10 = (Some DuplicateIdError, scenario_store)
   \<and> id' ((scenario_heap :: unit heap) 0) = id' ((scenario_heap :: unit heap) 10)
   \<and> fst (addItem (scenario_heap :: unit heap) scenario_store 7) = None
   \<and> getAll (snd (addItem (scenario_heap :: unit heap) scenario_store 7)) = [0, 1, 2, 3, 4, 5, 6, 7]
   \<and> getItem (snd (addItem (scenario_heap :: unit heap) scenario_store 7)) (KNum 8) = Some 7
   \<and> getChildren (snd (addItem (scenario_heap :: unit heap) scenario_store 7)) (KNum 1) = [1, 2, 7]"
proof -
  let ?h = "scenario_heap :: unit heap"
  obtain e s' where a10: "addItem ?h scenario_store 10 = (e, s')" by (cases "addItem ?h scenario_store 10")
  have "\<exists>r\<in>set (getAll scenario_store). id' (?h r) = id' (?h 10)"
    by (simp add: getAll_def scenario_items scenario_heap_simps makeItem_def)
  with addItem_spec[OF scenario_sound a10] have "e = Some DuplicateIdError" "s' = scenario_store"
    by blast+
  with a10 have dup: "addItem ?h scenario_store 10 = (Some DuplicateIdError, scenario_store)"
    by simp
  obtain e7 s7 where a7: "addItem ?h scenario_store 7 = (e7, s7)" by (cases "addItem ?h scenario_store 7")
  have "\<not> (\<exists>r\<in>set (getAll scenario_store). id' (?h r) = id' (?h 7))"
    by (simp add: getAll_def scenario_items scenario_heap_simps makeItem_def)
  with addItem_spec[OF scenario_sound a7] have e7: "e7 = None" by blast
  with addItem_spec[OF scenario_sound a7]
  have g: "getAll s7 = getAll scenario_store @ [7]" "getItem s7 (id' (?h 7)) = Some 7"
    and c: "\<forall>p. parent (?h 7) = Some p \<longrightarrow> childrenMap s7 p = Some (getChildren scenario_store p @ [7])"
    by blast+
  have "parent (?h 7) = Some (KNum 1)" by (simp add: scenario_heap_simps makeItem_def)
  with c have "childrenMap s7 (KNum 1) = Some (getChildren scenario_store (KNum 1) @ [7])" by simp
  moreover have "getChildren scenario_store (KNum 1) = [1, 2]"
    by (simp add: store_defs scenario_defs)
  ultimately have c7: "getChildren s7 (KNum 1) = [1, 2, 7]" by (simp add: getChildren_def)
  from g have g7: "getAll s7 = [0, 1, 2, 3, 4, 5, 6, 7]" "getItem s7 (KNum 8) = Some 7"
    by (simp_all add: getAll_def scenario_items scenario_heap_simps makeItem_def)
  have i: "id' (?h 0) = id' (?h 10)" by (simp add: scenario_heap_simps makeItem_def)
  from scenario_sound dup i e7 g7 c7 a7 show ?thesis by simp
qed

subsection \<open>Update\<close>

text \<open>
  Claim C6. In a store whose identifier map is sound, \<open>updateItem\<close> throws the not-found
  error exactly when no record of the sequence has the identifier of its argument, and then
  leaves heap and store as they were; it throws nothing else. On success the object that
  \<open>getItem\<close> returned before is the one it returns afterwards, the sequence and the identifier
  map are unchanged, no other object is written, and the object holds the argument's
  \<open>id\<close>, \<open>parent\<close> and \<open>label\<close> and, for each further field, the argument's value if it
  has one and its own old value otherwise.
\<close>

theorem updateItem_spec:
  assumes snd: "idMap_sound h s" and up: "updateItem h s item = (e, h', s')"
  shows "(e = Some NotFoundError \<longleftrightarrow> \<not> (\<exists>r\<in>set (getAll s). id' (h r) = id' (h item)))
     \<and> (e = Some NotFoundError \<or> e = None)
     \<and> (e = Some NotFoundError \<longrightarrow> h' = h \<and> s' = s)
     \<and> (e = None \<longrightarrow>
            (\<exists>old. getItem s (id' (h item)) = Some old
               \<and> getItem s' (id' (h item)) = Some old
               \<and> getAll s' = getAll s
               \<and> idMap s' = idMap s
               \<and> h' old = Object_assign (h old) (h item)
               \<and> (\<forall>r. r \<noteq> old \<longrightarrow> h' r = h r)
               \<and> id' (h' old) = id' (h item)
               \<and> parent (h' old) = parent (h item)
               \<and> label (h' old) = label (h item)
               \<and> (\<forall>f. extra (h' old) f =
                       (case extra (h item) f of None \<Rightarrow> extra (h old) f | Some v \<Rightarrow> Some v))))"
proof (cases "idMap s (id' (h item))")
  case None
  with idMap_sound_has[OF snd, of "id' (h item)"]
  have no: "\<not> (\<exists>r\<in>set (getAll s). id' (h r) = id' (h item))" by (simp add: getAll_def)
  from None up have "e = Some NotFoundError" "h' = h" "s' = s"
    by (auto simp: updateItem_def getItem_def)
  with no show ?thesis by simp
next
  case (Some old)
  with idMap_sound_has[OF snd, of "id' (h item)"]
  have yes: "\<exists>r\<in>set (getAll s). id' (h r) = id' (h item)" by (simp add: getAll_def)
  from up updateItem_unfold[of s h item old, OF Some] have e: "e = None"
    and h': "h' = h(old := Object_assign (h old) (h item))"
    and s': "s' = \<lparr>items = items s, idMap = idMap s,
        childrenMap = (if parent (h old) \<noteq> parent (h item) then rebuildChildren h' (items s)
                               else childrenMap s)\<rparr>"
    by auto
  have 1: "getItem s (id' (h item)) = Some old" "getItem s' (id' (h item)) = Some old"
    "getAll s' = getAll s" "idMap s' = idMap s"
    using Some by (simp_all add: s' getItem_def getAll_def)
  have 2: "h' old = Object_assign (h old) (h item)" "\<forall>r. r \<noteq> old \<longrightarrow> h' r = h r"
    by (simp_all add: h')
  have 3: "id' (h' old) = id' (h item)" "parent (h' old) = parent (h item)"
    "label (h' old) = label (h item)"
    by (simp_all add: h' Object_assign_def)
  have 4: "\<forall>f. extra (h' old) f =
                (case extra (h item) f of None \<Rightarrow> extra (h old) f | Some v \<Rightarrow> Some v)"
    by (simp add: h' Object_assign_def map_add_def)
  from 1 2 3 4 have "\<exists>old. getItem s (id' (h item)) = Some old
               \<and> getItem s' (id' (h item)) = Some old
               \<and> getAll s' = getAll s
               \<and> idMap s' = idMap s
               \<and> h' old = Object_assign (h old) (h item)
               \<and> (\<forall>r. r \<noteq> old \<longrightarrow> h' r = h r)
               \<and> id' (h' old) = id' (h item)
               \<and> parent (h' old) = parent (h item)
               \<and> label (h' old) = label (h item)
               \<and> (\<forall>f. extra (h' old) f =
                       (case extra (h item) f of None \<Rightarrow> extra (h old) f | Some v \<Rightarrow> Some v))"
    by (intro exI[of _ old] conjI)
  with yes e show ?thesis by simp
qed

text \<open>
  The theorem at the store of the test suite: the record 999 is not found; the update of
  record 2 with a new label succeeds on the stored object.
\<close>

theorem updateItem_spec_witness:
  "idMap_sound (scenario_heap :: unit heap) scenario_store
   \<and> updateItem (scenario_heap :: unit heap) scenario_store 12
        = (Some NotFoundError, scenario_heap, scenario_store)
   \<and> fst (updateItem (scenario_heap :: unit heap) scenario_store 8) = None
   \<and> getItem scenario_store (KNum 2) = Some 1
   \<and> getItem (snd (snd (updateItem (scenario_heap :: unit heap) scenario_store 8))) (KNum 2) = Some 1
   \<and> label (fst (snd (updateItem (scenario_heap :: unit heap) scenario_store 8)) 1) = ''Updated Item''"
proof -
  let ?h = "scenario_heap :: unit heap"
  obtain e h' s' where u12: "updateItem ?h scenario_store 12 = (e, h', s')"
    by (cases "updateItem ?h scenario_store 12")
  have "\<not> (\<exists>r\<in>set (getAll scenario_store). id' (?h r) = id' (?h 12))"
    by (simp add: getAll_def scenario_items scenario_heap_simps scenario_heap_def makeItem_def)
  with updateItem_spec[OF scenario_sound u12]
  have "e = Some NotFoundError" "h' = ?h \<and> s' = scenario_store" by blast+
  with u12 have nf: "updateItem ?h scenario_store 12 = (Some NotFoundError, ?h, scenario_store)"
    by simp
  obtain e8 h8 s8 where u8: "updateItem ?h scenario_store 8 = (e8, h8, s8)"
    by (cases "updateItem ?h scenario_store 8")
  have "\<exists>r\<in>set (getAll scenario_store). id' (?h r) = id' (?h 8)"
    by (simp add: getAll_def scenario_items scenario_heap_simps makeItem_def)
  with updateItem_spec[OF scenario_sound u8] have e8: "e8 = None" by blast
  with updateItem_spec[OF scenario_sound u8] obtain old
    where o: "getItem scenario_store (id' (?h 8)) = Some old"
      "getItem s8 (id' (?h 8)) = Some old" "label (h8 old) = label (?h 8)"
    by blast
  have i8: "id' (?h 8) = KNum 2" "label (?h 8) = ''Updated Item''"
    by (simp_all add: scenario_heap_simps makeItem_def)
  from o have "old = 1" by (simp add: i8 scenario_getItem_2)
  with o i8 have r: "getItem s8 (KNum 2) = Some 1" "label (h8 1) = ''Updated Item''" by simp_all
  from scenario_sound nf e8 scenario_getItem_2 r u8 show ?thesis by simp
qed

text \<open>
  Claim C7. For a successful \<open>updateItem\<close> in a store with sound indexes: when the
  argument's parent equals the stored record's, the children map is unchanged; when it
  differs, the stored record, which was in its old parent's list, is not in it any more and
  is in the list of the new parent, every other record is in the same lists as before, and
  each list is the sequence filtered by parent.
\<close>

theorem updateItem_children:
  assumes snd: "index_sound h s" and up: "updateItem h s item = (None, h', s')"
    and old: "getItem s (id' (h item)) = Some old"
  shows "(parent (h item) = parent (h old) \<longrightarrow> childrenMap s' = childrenMap s)
     \<and> (\<forall>p. parent (h old) = Some p \<longrightarrow> old \<in> set (getChildren s p))
     \<and> (parent (h item) \<noteq> parent (h old) \<longrightarrow>
          (\<forall>p. parent (h old) = Some p \<longrightarrow> old \<notin> set (getChildren s' p))
        \<and> (\<forall>q. parent (h item) = Some q \<longrightarrow> old \<in> set (getChildren s' q))
        \<and> (\<forall>r p. r \<noteq> old \<longrightarrow> (r \<in> set (getChildren s' p) \<longleftrightarrow> r \<in> set (getChildren s p)))
        \<and> (\<forall>p. getChildren s' p = filter (\<lambda>r. parent (h' r) = Some p) (getAll s')))"
proof -
  from old have Some: "idMap s (id' (h item)) = Some old" by (simp add: getItem_def)
  from snd have a: "\<And>k r. idMap s k = Some r \<Longrightarrow> r \<in> set (items s) \<and> id' (h r) = k"
    and c: "childrenMap_exact h s"
    by (auto simp: index_sound_def idMap_sound_def)
  from a[OF Some] have mem: "old \<in> set (items s)" by simp
  from up updateItem_unfold[of s h item old, OF Some]
  have h': "h' = h(old := Object_assign (h old) (h item))"
    and s': "s' = \<lparr>items = items s, idMap = idMap s,
        childrenMap = (if parent (h old) \<noteq> parent (h item) then rebuildChildren h' (items s)
                               else childrenMap s)\<rparr>"
    by auto
  have c': "childrenMap_exact h' s'"
    using updateItem_sound[OF snd up] by (simp add: index_sound_def)
  have gc: "getChildren s p = filter (\<lambda>r. parent (h r) = Some p) (items s)" for p
    by (simp add: getChildren_inv[OF c] childrenOf_def)
  have gc': "getChildren s' p = filter (\<lambda>r. parent (h' r) = Some p) (items s)" for p
    using getChildren_inv[OF c', of p] by (simp add: childrenOf_def s')
  have par: "parent (h' r) = (if r = old then parent (h item) else parent (h r))" for r
    by (simp add: h' Object_assign_def)
  have 1: "parent (h item) = parent (h old) \<longrightarrow> childrenMap s' = childrenMap s"
    by (simp add: s')
  have 2: "\<forall>p. parent (h old) = Some p \<longrightarrow> old \<in> set (getChildren s p)"
    using mem by (simp add: gc)
  have 3: "parent (h item) \<noteq> parent (h old) \<longrightarrow>
             (\<forall>p. parent (h old) = Some p \<longrightarrow> old \<notin> set (getChildren s' p))"
    by (auto simp: gc' par)
  have 4: "\<forall>q. parent (h item) = Some q \<longrightarrow> old \<in> set (getChildren s' q)"
    using mem by (simp add: gc' par)
  have 5: "\<forall>r p. r \<noteq> old \<longrightarrow> (r \<in> set (getChildren s' p) \<longleftrightarrow> r \<in> set (getChildren s p))"
    by (simp add: gc gc' par)
  have "items s' = items s" by (simp add: s')
  then have 6: "\<forall>p. getChildren s' p = filter (\<lambda>r. parent (h' r) = Some p) (getAll s')"
    by (simp add: gc' getAll_def)
  from 1 2 3 4 5 6 show ?thesis by blast
qed

text \<open>
  The theorem at the store of the test suite: the update of record 2 with the same
  parent, and the update that moves it from under 1 to under 3.
\<close>

theorem updateItem_children_witness:
  "index_sound (scenario_heap :: unit heap) scenario_store
   \<and> fst (updateItem (scenario_heap :: unit heap) scenario_store 8) = None
   \<and> fst (updateItem (scenario_heap :: unit heap) scenario_store 9) = None
   \<and> getItem scenario_store (KNum 2) = Some 1
   \<and> childrenMap (snd (snd (updateItem (scenario_heap :: unit heap) scenario_store 8)))
        = childrenMap scenario_store
   \<and> 1 \<in> set (getChildren scenario_store (KNum 1))
   \<and> 1 \<notin> set (getChildren (snd (snd (updateItem (scenario_heap :: unit heap) scenario_store 9))) (KNum 1))
   \<and> 1 \<in> set (getChildren (snd (snd (updateItem (scenario_heap :: unit heap) scenario_store 9))) (KNum 3))"
proof -
  let ?h = "scenario_heap :: unit heap"
  have some: "idMap scenario_store (KNum 2) = Some 1"
    using scenario_getItem_2 by (simp add: getItem_def)
  have i8: "id' (?h 8) = KNum 2" "parent (?h 8) = Some (KNum 1)"
    and i9: "id' (?h 9) = KNum 2" "parent (?h 9) = Some (KNum 3)"
    and i1: "parent (?h 1) = Some (KNum 1)"
    by (simp_all add: scenario_heap_simps makeItem_def)
  obtain h8 s8 where u8: "updateItem ?h scenario_store 8 = (None, h8, s8)"
    using updateItem_unfold[of scenario_store ?h 8 1] some i8 by simp
  obtain h9 s9 where u9: "updateItem ?h scenario_store 9 = (None, h9, s9)"
    using updateItem_unfold[of scenario_store ?h 9 1] some i9 by simp
  have o8: "getItem scenario_store (id' (?h 8)) = Some 1"
    and o9: "getItem scenario_store (id' (?h 9)) = Some 1"
    by (simp_all add: i8 i9 scenario_getItem_2)
  note t8 = updateItem_children[OF scenario_index_sound u8 o8]
  note t9 = updateItem_children[OF scenario_index_sound u9 o9]
  have pe: "parent (?h 8) = parent (?h 1)" by (simp add: scenario_heap_simps makeItem_def)
  have ne: "parent (?h 9) \<noteq> parent (?h 1)" by (simp add: scenario_heap_simps makeItem_def)
  from t8 pe have a: "childrenMap s8 = childrenMap scenario_store" by blast
  from t8 i1 have b: "1 \<in> set (getChildren scenario_store (KNum 1))" by blast
  from t9 ne i1 have c: "1 \<notin> set (getChildren s9 (KNum 1))" by blast
  from t9 ne i9 have d: "1 \<in> set (getChildren s9 (KNum 3))" by blast
  from scenario_index_sound u8 u9 scenario_getItem_2 a b c d show ?thesis by simp
qed

subsection \<open>Children\<close>

text \<open>
  Claim C8, amended. In a store that satisfies the invariants, every record with the
  non-null parent \<open>p\<close> occurs exactly once in \<open>getChildren p\<close>; \<open>getChildren p\<close> is the
  sequence filtered by parent, so siblings keep their order; and \<open>getChildren k\<close> is the empty
  list for every \<open>k\<close> that no record names as its parent, which includes every unknown
  identifier that no record refers to.
\<close>

theorem getChildren_complete:
  assumes inv: "store_inv h s"
  shows "(\<forall>r\<in>set (getAll s). \<forall>p. parent (h r) = Some p \<longrightarrow> count_list (getChildren s p) r = 1)
       \<and> (\<forall>p. getChildren s p = filter (\<lambda>r. parent (h r) = Some p) (getAll s))
       \<and> (\<forall>k. (\<forall>r\<in>set (getAll s). parent (h r) \<noteq> Some k) \<longrightarrow> getChildren s k = [])"
proof -
  from inv have u: "ids_unique h s" and c: "childrenMap_exact h s" by (auto simp: store_inv_def)
  have gc: "getChildren s p = filter (\<lambda>r. parent (h r) = Some p) (items s)" for p
    by (simp add: getChildren_inv[OF c] childrenOf_def)
  from u have d: "distinct (items s)" by (simp add: ids_unique_def distinct_map)
  have 1: "\<forall>r\<in>set (getAll s). \<forall>p. parent (h r) = Some p \<longrightarrow> count_list (getChildren s p) r = 1"
  proof (intro ballI allI impI)
    fix r p assume "r \<in> set (getAll s)" "parent (h r) = Some p"
    then have "r \<in> set (getChildren s p)" by (simp add: gc getAll_def)
    moreover have "distinct (getChildren s p)" using d by (simp add: gc)
    ultimately show "count_list (getChildren s p) r = 1" by (rule count_list_distinct[rotated])
  qed
  have 3: "\<forall>k. (\<forall>r\<in>set (getAll s). parent (h r) \<noteq> Some k) \<longrightarrow> getChildren s k = []"
    by (auto simp: gc getAll_def filter_empty_conv)
  from 1 gc 3 show ?thesis by (simp add: getAll_def)
qed

text \<open>
  The theorem at the store of the test suite, for the children of 1 and of the leaf 5.
\<close>

theorem getChildren_complete_witness:
  "store_inv (scenario_heap :: unit heap) scenario_store
   \<and> 2 \<in> set (getAll scenario_store)
   \<and> parent ((scenario_heap :: unit heap) 2) = Some (KNum 1)
   \<and> getChildren scenario_store (KNum 1) = [1, 2]
   \<and> count_list (getChildren scenario_store (KNum 1)) 2 = 1
   \<and> getChildren scenario_store (KNum 5) = []"
proof -
  let ?h = "scenario_heap :: unit heap"
  note t = getChildren_complete[OF scenario_inv]
  have m: "2 \<in> set (getAll scenario_store)" "parent (?h 2) = Some (KNum 1)"
    by (simp_all add: getAll_def scenario_items scenario_heap_simps makeItem_def)
  from t m have c: "count_list (getChildren scenario_store (KNum 1)) 2 = 1" by blast
  have "\<forall>r\<in>set (getAll scenario_store). parent (?h r) \<noteq> Some (KNum 5)"
    by (simp add: getAll_def scenario_items scenario_heap_simps makeItem_def)
  with t have e: "getChildren scenario_store (KNum 5) = []" by blast
  have g: "getChildren scenario_store (KNum 1) = [1, 2]"
    by (simp add: store_defs scenario_defs)
  from scenario_inv m c e g show ?thesis by simp
qed

text \<open>
  Claim C8 as stated fails for an unknown identifier that a record names as its parent:
  in \<^verbatim>\<open>brokenStore\<close> no record has the identifier 98 and \<open>getChildren 98\<close> is not empty.
\<close>

theorem getChildren_unknown_counterexample:
  "getItem brokenStore (KNum 98) = None \<and> getChildren brokenStore (KNum 98) = [11]"
  by (simp add: store_defs scenario_defs)

subsection \<open>The scenario of the test suite\<close>

text \<open>
  Claim C9. In the store built from the records (1,null), (2,1), (3,1), (4,2), (5,2), (6,3),
  (7,null): \<open>getChildren 1\<close> is the records 2, 3; \<open>getAllChildren 1\<close> has five records, those
  with the identifiers 2 to 6; \<open>getAllParents 4\<close> is the records 4, 2, 1; and
  \<open>removeItem 2\<close> leaves the four records 1, 3, 6, 7, with one child of 1.
\<close>

theorem scenario_queries:
  "map (\<lambda>r. id' ((scenario_heap :: unit heap) r)) (getChildren scenario_store (KNum 1))
      = [KNum 2, KNum 3]
    \<and> map_option length (getAllChildren (scenario_heap :: unit heap) scenario_store (KNum 1))
          = Some 5
    \<and> map_option (\<lambda>ys. (\<lambda>r. id' ((scenario_heap :: unit heap) r)) ` set ys)
          (getAllChildren (scenario_heap :: unit heap) scenario_store (KNum 1))
          = Some {KNum 2, KNum 3, KNum 4, KNum 5, KNum 6}
    \<and> map_option (map (\<lambda>r. id' ((scenario_heap :: unit heap) r)))
          (getAllParents (scenario_heap :: unit heap) scenario_store (KNum 4))
          = Some [KNum 4, KNum 2, KNum 1]
    \<and> map_option (\<lambda>s'. map (\<lambda>r. id' ((scenario_heap :: unit heap) r)) (getAll s'))
          (removeItem (scenario_heap :: unit heap) scenario_store (KNum 2))
          = Some [KNum 1, KNum 3, KNum 6, KNum 7]
    \<and> map_option (\<lambda>s'. length (getChildren s' (KNum 1)))
          (removeItem (scenario_heap :: unit heap) scenario_store (KNum 2)) = Some 1"
proof -
  define h :: "unit heap" where "h = scenario_heap"
  have gac: "getAllChildren h scenario_store (KNum 1) = Some [1, 2, 5, 3, 4]"
    unfolding h_def by (simp add: loop_eqs store_defs scenario_defs)
  have gap: "getAllParents h scenario_store (KNum 4) = Some [3, 1, 0]"
    unfolding h_def by (simp add: loop_eqs store_defs scenario_defs)
  have gac2: "getAllChildren h scenario_store (KNum 2) = Some [3, 4]"
    unfolding h_def by (simp add: loop_eqs store_defs scenario_defs)
  have rm: "map_option items (removeItem h scenario_store (KNum 2)) = Some [0, 2, 5, 6]"
    unfolding removeItem_def gac2 by (simp add: h_def store_defs scenario_defs)
  have rmc: "map_option (\<lambda>s'. getChildren s' (KNum 1)) (removeItem h scenario_store (KNum 2))
      = Some [2]"
    unfolding removeItem_def gac2 by (simp add: h_def store_defs scenario_defs)
  have c1: "map (\<lambda>r. id' (h r)) (getChildren scenario_store (KNum 1)) = [KNum 2, KNum 3]"
    unfolding h_def by (simp add: store_defs scenario_defs)
  have c2: "map_option length (getAllChildren h scenario_store (KNum 1)) = Some 5"
    by (simp add: gac)
  have c3: "map_option (\<lambda>ys. (\<lambda>r. id' (h r)) ` set ys) (getAllChildren h scenario_store (KNum 1))
          = Some {KNum 2, KNum 3, KNum 4, KNum 5, KNum 6}"
  proof -
    have "(\<lambda>r. id' (h r)) ` set [1, 2, 5, 3, 4] = {KNum 2, KNum 3, KNum 4, KNum 5, KNum 6}"
      unfolding h_def by (auto simp add: scenario_defs)
    then show ?thesis by (simp add: gac)
  qed
  have c4: "map_option (map (\<lambda>r. id' (h r))) (getAllParents h scenario_store (KNum 4))
          = Some [KNum 4, KNum 2, KNum 1]"
  proof -
    have "map (\<lambda>r. id' (h r)) [3, 1, 0] = [KNum 4, KNum 2, KNum 1]"
      unfolding h_def by (simp add: scenario_defs)
    then show ?thesis by (simp add: gap)
  qed
  have c5: "map_option (\<lambda>s'. map (\<lambda>r. id' (h r)) (getAll s'))
          (removeItem h scenario_store (KNum 2)) = Some [KNum 1, KNum 3, KNum 6, KNum 7]"
    using rm by (auto simp add: getAll_def h_def scenario_heap_simps makeItem_def)
  have c6: "map_option (\<lambda>s'. length (getChildren s' (KNum 1)))
          (removeItem h scenario_store (KNum 2)) = Some 1"
    using rmc by auto
  from c1 c2 c3 c4 c5 c6 show ?thesis unfolding h_def by blast
qed

subsection \<open>Termination\<close>

text \<open>
  Claim C10. In a store with sound indexes, when the parent relation is acyclic,
  \<open>getAllParents k\<close> and \<open>getAllChildren k\<close> return for every \<open>k\<close>. In a store that satisfies
  the invariants, when the parent chain from \<open>k\<close> reaches an identifier that lies on a cycle,
  \<open>getAllParents k\<close> does not return.
\<close>

theorem traversal_termination:
  assumes snd: "index_sound h s"
  shows "(acyclic (parentRel h s) \<longrightarrow>
            (\<exists>ys. getAllParents h s k = Some ys) \<and> (\<exists>zs. getAllChildren h s k = Some zs))
       \<and> (store_inv h s
            \<and> (\<exists>d. (k, d) \<in> (parentRel h s)\<^sup>* \<and> (d, d) \<in> (parentRel h s)\<^sup>+) \<longrightarrow>
            getAllParents h s k = None)"
proof (intro conjI impI)
  assume ac: "acyclic (parentRel h s)"
  from snd have i: "idMap_sound h s" and c: "childrenMap_exact h s"
    by (simp_all add: index_sound_def)
  from getAllParents_ancestors[OF i ac, of k] show "\<exists>ys. getAllParents h s k = Some ys"
    by blast
  from getAllChildren_traversal[OF c ac, of k] show "\<exists>zs. getAllChildren h s k = Some zs"
    by blast
next
  assume a: "store_inv h s
      \<and> (\<exists>d. (k, d) \<in> (parentRel h s)\<^sup>* \<and> (d, d) \<in> (parentRel h s)\<^sup>+)"
  then obtain d where "(k, d) \<in> (parentRel h s)\<^sup>*" "(d, d) \<in> (parentRel h s)\<^sup>+" by blast
  with a show "getAllParents h s k = None" by (intro getAllParents_diverges) simp_all
qed

text \<open>
  The theorem at the store of the test suite, which is acyclic, and at the store of one
  record that is its own parent.
\<close>

theorem traversal_termination_witness:
  "index_sound (scenario_heap :: unit heap) scenario_store
   \<and> acyclic (parentRel (scenario_heap :: unit heap) scenario_store)
   \<and> (\<exists>ys. getAllParents (scenario_heap :: unit heap) scenario_store (KNum 4) = Some ys)
   \<and> (\<exists>zs. getAllChildren (scenario_heap :: unit heap) scenario_store (KNum 4) = Some zs)
   \<and> index_sound (loop_heap :: unit heap) loop_store
   \<and> store_inv (loop_heap :: unit heap) loop_store
   \<and> (KNum 1, KNum 1) \<in> (parentRel (loop_heap :: unit heap) loop_store)\<^sup>*
   \<and> (KNum 1, KNum 1) \<in> (parentRel (loop_heap :: unit heap) loop_store)\<^sup>+
   \<and> getAllParents (loop_heap :: unit heap) loop_store (KNum 1) = None"
proof -
  have a: "(\<exists>ys. getAllParents (scenario_heap :: unit heap) scenario_store (KNum 4) = Some ys)
     \<and> (\<exists>zs. getAllChildren (scenario_heap :: unit heap) scenario_store (KNum 4) = Some zs)"
    by (rule traversal_termination[OF scenario_index_sound, of "KNum 4", THEN conjunct1, THEN mp,
          OF scenario_acyclic])
  have ls: "index_sound (loop_heap :: unit heap) loop_store"
    by (rule store_inv_sound[OF loop_inv])
  have ex: "store_inv (loop_heap :: unit heap) loop_store
        \<and> (\<exists>d. (KNum 1, d) \<in> (parentRel (loop_heap :: unit heap) loop_store)\<^sup>*
        \<and> (d, d) \<in> (parentRel (loop_heap :: unit heap) loop_store)\<^sup>+)"
    using loop_inv loop_cycle by blast
  have b: "getAllParents (loop_heap :: unit heap) loop_store (KNum 1) = None"
    by (rule traversal_termination[OF ls, of "KNum 1", THEN conjunct2, THEN mp, OF ex])
  from a b scenario_index_sound scenario_acyclic ls loop_inv loop_cycle show ?thesis by simp
qed

end
